theory Spec2Isabelle
  imports Main
begin

section \<open>Errors and JavaScript values\<close>

text \<open>
  Every exception the service can raise is a value. \<open>FsError code path\<close> is a failure of a
  Node file-system call (\<open>ENOENT\<close>, \<open>EISDIR\<close>, ...), \<open>TypeError\<close> is the JavaScript runtime
  error, \<open>ExternalError\<close> is a failure raised by a collaborator whose code is not part of
  the service (the manifest parser, the zip decoder), and \<open>CustomError message code\<close> is an
  instance of the repository's own error class, as \<open>new CustomError(message, code)\<close>
  builds it.
\<close>

datatype error =
    FsError string string
  | TypeError string
  | ExternalError string
  | CustomError string string

text \<open>\<open>error instanceof CustomError\<close>.\<close>

fun is_CustomError :: "error \<Rightarrow> bool" where
  "is_CustomError (CustomError m c) = True"
| "is_CustomError e = False"

fun error_message :: "error \<Rightarrow> string" where
  "error_message (FsError c p) = c @ '': '' @ p"
| "error_message (TypeError m) = m"
| "error_message (ExternalError m) = m"
| "error_message (CustomError m c) = m"

text \<open>
  The result of \<open>Array.prototype.find\<close>: the element, or \<open>undefined\<close> when no element
  matches. \<open>null\<close> is a different value, and \<open>===\<close> tells them apart.
\<close>

datatype 'a js_value = Undefined | Null | Defined 'a

definition array_find :: "('a \<Rightarrow> bool) \<Rightarrow> 'a list \<Rightarrow> 'a js_value" where
  "array_find p xs = (case List.find p xs of None \<Rightarrow> Undefined | Some x \<Rightarrow> Defined x)"

definition toLowerCase_char :: "char \<Rightarrow> char" where
  "toLowerCase_char c =
     (case map_of (zip ''ABCDEFGHIJKLMNOPQRSTUVWXYZ'' ''abcdefghijklmnopqrstuvwxyz'') c of
        None \<Rightarrow> c
      | Some l \<Rightarrow> l)"

definition toLowerCase :: "string \<Rightarrow> string" where
  "toLowerCase s = map toLowerCase_char s"

section \<open>Paths (Node's \<open>path\<close> module on POSIX, \<open>path.sep = "/"\<close>)\<close>

definition path_sep :: char where
  "path_sep = CHR ''/''"

text \<open>\<open>path.basename(p)\<close>: the last portion of the path, trailing separators ignored.\<close>

definition path_basename :: "string \<Rightarrow> string" where
  "path_basename p =
     rev (takeWhile (\<lambda>c. c \<noteq> path_sep) (dropWhile (\<lambda>c. c = path_sep) (rev p)))"

text \<open>
  \<open>path.basename(p, ext)\<close>: the extension is removed from the last portion when that
  portion ends with it and is longer than it; a path equal to the extension gives the empty
  string. (For a path that ends in a separator Node's loop has further corner cases; such a
  path never names a readable archive.)
\<close>

definition path_basename_ext :: "string \<Rightarrow> string \<Rightarrow> string" where
  "path_basename_ext p ext =
     (if ext = [] \<or> length p < length ext then path_basename p
      else if ext = p then []
      else (let b = path_basename p in
            if length ext < length b \<and> drop (length b - length ext) b = ext
            then take (length b - length ext) b
            else b))"

text \<open>
  \<open>path.dirname(p)\<close>: Node scans from the end down to index 1, skips trailing separators
  and the last portion, and cuts at the separator in front of it.
\<close>

definition path_dirname :: "string \<Rightarrow> string" where
  "path_dirname p =
     (if p = [] then ''.''
      else (let hasRoot = (hd p = path_sep);
                r = dropWhile (\<lambda>c. c \<noteq> path_sep) (dropWhile (\<lambda>c. c = path_sep) (rev (tl p)))
            in if r = [] then (if hasRoot then ''/'' else ''.'')
               else if hasRoot \<and> length r = 1 then ''//''
               else take (length r) p))"

fun split_sep :: "string \<Rightarrow> string list" where
  "split_sep [] = [[]]"
| "split_sep (c # cs) =
     (if c = path_sep then [] # split_sep cs
      else (case split_sep cs of [] \<Rightarrow> [[c]] | s # ss \<Rightarrow> (c # s) # ss))"

fun join_sep :: "string list \<Rightarrow> string" where
  "join_sep [] = []"
| "join_sep [s] = s"
| "join_sep (s # t # ss) = s @ [path_sep] @ join_sep (t # ss)"

text \<open>
  \<open>normalizeString\<close>: empty and \<open>.\<close> segments are dropped, \<open>..\<close> removes the segment
  before it (or is kept, for a relative path that climbs above its start). The accumulator
  holds the segments kept so far, last one first.
\<close>

fun normalize_segments :: "bool \<Rightarrow> string list \<Rightarrow> string list \<Rightarrow> string list" where
  "normalize_segments allowAboveRoot [] acc = rev acc"
| "normalize_segments allowAboveRoot (s # ss) acc =
     (if s = [] \<or> s = ''.'' then normalize_segments allowAboveRoot ss acc
      else if s = ''..'' then
        (if acc \<noteq> [] \<and> hd acc \<noteq> ''..'' then normalize_segments allowAboveRoot ss (tl acc)
         else if allowAboveRoot then normalize_segments allowAboveRoot ss (''..'' # acc)
         else normalize_segments allowAboveRoot ss acc)
      else normalize_segments allowAboveRoot ss (s # acc))"

definition path_normalize :: "string \<Rightarrow> string" where
  "path_normalize p =
     (if p = [] then ''.''
      else (let isAbsolute = (hd p = path_sep);
                trailingSeparator = (last p = path_sep);
                r = join_sep (normalize_segments (\<not> isAbsolute) (split_sep p) [])
            in if r = [] then (if isAbsolute then ''/'' else if trailingSeparator then ''./'' else ''.'')
               else (let r' = (if trailingSeparator then r @ [path_sep] else r)
                     in if isAbsolute then path_sep # r' else r')))"

text \<open>\<open>path.join(...)\<close>: the non-empty arguments joined by the separator, normalised.\<close>

definition path_join_list :: "string list \<Rightarrow> string" where
  "path_join_list args =
     (let parts = filter (\<lambda>s. s \<noteq> []) args
      in if parts = [] then ''.'' else path_normalize (join_sep parts))"

definition path_join :: "string \<Rightarrow> string \<Rightarrow> string" where
  "path_join a b = path_join_list [a, b]"

section \<open>The file system\<close>

text \<open>
  The disk is a table from paths to nodes. The calls are those of Node's \<open>fs\<close> and
  \<open>fs-extra\<close>, with the failures the service can meet. A path with closing separators
  names the same node as the path without them, provided the node is a directory; the
  table holds every node under its path without closing separators (the root under \<open>/\<close>).
\<close>

datatype node = File string | Dir

type_synonym fs = "(string \<times> node) list"

definition fs_key :: "string \<Rightarrow> string" where
  "fs_key p =
     (let s = rev (dropWhile (\<lambda>c. c = path_sep) (rev p))
      in if s = [] \<and> p \<noteq> [] then [path_sep] else s)"

text \<open>What a path resolves to: a file is not reached through a path with a closing
  separator.\<close>

definition fs_lookup :: "fs \<Rightarrow> string \<Rightarrow> node option" where
  "fs_lookup d p =
     (case map_of d (fs_key p) of
        None \<Rightarrow> None
      | Some Dir \<Rightarrow> Some Dir
      | Some (File content) \<Rightarrow> if fs_key p = p then Some (File content) else None)"

definition fs_put :: "fs \<Rightarrow> string \<Rightarrow> node \<Rightarrow> fs" where
  "fs_put d p n = (fs_key p, n) # filter (\<lambda>(q, m). q \<noteq> fs_key p) d"

definition fs_remove :: "fs \<Rightarrow> string \<Rightarrow> fs" where
  "fs_remove d p = filter (\<lambda>(q, m). q \<noteq> fs_key p) d"

text \<open>\<open>pathExistsSync\<close>, \<open>pathExists\<close>.\<close>

definition pathExistsSync :: "fs \<Rightarrow> string \<Rightarrow> bool" where
  "pathExistsSync d p = (fs_lookup d p \<noteq> None)"

text \<open>\<open>readFile\<close>, and the read stream of \<open>createReadStream\<close> read to its end.\<close>

definition readFile :: "fs \<Rightarrow> string \<Rightarrow> error + string" where
  "readFile d p =
     (case map_of d (fs_key p) of
        None \<Rightarrow> Inl (FsError ''ENOENT'' p)
      | Some Dir \<Rightarrow> Inl (FsError ''EISDIR'' p)
      | Some (File content) \<Rightarrow>
          if fs_key p = p then Inr content else Inl (FsError ''ENOTDIR'' p))"

text \<open>\<open>writeFile\<close>: the path must not name a directory, and its parent directory must
  exist.\<close>

definition writeFile :: "fs \<Rightarrow> string \<Rightarrow> string \<Rightarrow> error + fs" where
  "writeFile d p content =
     (if fs_key p \<noteq> p \<or> fs_lookup d p = Some Dir then Inl (FsError ''EISDIR'' p)
      else (case map_of d (fs_key (path_dirname p)) of
              None \<Rightarrow> Inl (FsError ''ENOENT'' p)
            | Some (File c) \<Rightarrow> Inl (FsError ''ENOTDIR'' p)
            | Some Dir \<Rightarrow> Inr (fs_put d p (File content))))"

text \<open>
  \<open>unlinkSync\<close> removes a file. It does not remove a directory: on a directory it throws
  and the directory stays.
\<close>

definition unlinkSync :: "fs \<Rightarrow> string \<Rightarrow> error + fs" where
  "unlinkSync d p =
     (case map_of d (fs_key p) of
        None \<Rightarrow> Inl (FsError ''ENOENT'' p)
      | Some Dir \<Rightarrow> Inl (FsError ''EISDIR'' p)
      | Some (File c) \<Rightarrow>
          if fs_key p = p then Inr (fs_remove d p) else Inl (FsError ''ENOTDIR'' p))"

text \<open>The proper ancestors of a path, nearest first; the fuel bounds the climb.\<close>

fun path_ancestors :: "nat \<Rightarrow> string \<Rightarrow> string list" where
  "path_ancestors 0 p = []"
| "path_ancestors (Suc n) p =
     (let d = path_dirname p in if d = p then [] else d # path_ancestors n d)"

text \<open>
  \<open>mkdir(p, {recursive: true})\<close>: creates the directory and the ancestors that are missing;
  fails when the path or an ancestor is a file.
\<close>

definition mkdir_recursive :: "fs \<Rightarrow> string \<Rightarrow> error + fs" where
  "mkdir_recursive d p =
     (let ps = map fs_key (p # path_ancestors (length p) p)
      in if \<exists>q \<in> set ps. (case map_of d q of Some (File c) \<Rightarrow> True | _ \<Rightarrow> False)
         then Inl (FsError (if map_of d (fs_key p) = None then ''ENOTDIR'' else ''EEXIST'') p)
         else Inr (foldr (\<lambda>q acc. if map_of acc q = None then fs_put acc q Dir else acc) ps d))"

text \<open>
  Modelled from the spec: the helpers of \<open>helpers/fs.helpers\<close> are not among the sources.
  \<open>pathExist\<close> tests existence; \<open>ensureFolderExist\<close> creates a folder "if missing",
  "creating intermediate directories as needed"; \<open>deleteFolder\<close> "deletes recursively";
  \<open>getFilesInFolder\<close> "lists files in the folder" and \<open>getFoldersInFolder\<close> "lists immediate
  subfolders", both as full paths, in the order of the table.
\<close>

definition pathExist :: "fs \<Rightarrow> string \<Rightarrow> bool" where
  "pathExist d p = (fs_lookup d p \<noteq> None)"

definition ensureFolderExist :: "fs \<Rightarrow> string \<Rightarrow> error + fs" where
  "ensureFolderExist d p = mkdir_recursive d p"

definition is_beneath :: "string \<Rightarrow> string \<Rightarrow> bool" where
  "is_beneath folder q =
     (let root = (if folder \<noteq> [] \<and> last folder = path_sep then folder else folder @ [path_sep])
      in length root < length q \<and> take (length root) q = root)"

definition deleteFolder :: "fs \<Rightarrow> string \<Rightarrow> fs" where
  "deleteFolder d p = filter (\<lambda>(q, m). q \<noteq> fs_key p \<and> \<not> is_beneath (fs_key p) q) d"

definition getFilesInFolder :: "fs \<Rightarrow> string \<Rightarrow> string list" where
  "getFilesInFolder d folder =
     map fst (filter (\<lambda>(q, m). m \<noteq> Dir \<and> q \<noteq> fs_key folder
                               \<and> fs_key (path_dirname q) = fs_key folder) d)"

definition getFoldersInFolder :: "fs \<Rightarrow> string \<Rightarrow> string list" where
  "getFoldersInFolder d folder =
     map fst (filter (\<lambda>(q, m). m = Dir \<and> q \<noteq> fs_key folder
                               \<and> fs_key (path_dirname q) = fs_key folder) d)"

section \<open>Manifests, local maps and the collaborators\<close>

text \<open>
  The manifest type \<open>MapInfo\<close> is declared outside the service; the service reads its cover
  and song file names and, of every difficulty, the optional beatmap and lightshow file
  names.
\<close>

record difficulty =
  beatmapFilename :: "string option"
  lightshowDataFilename :: "string option"

record MapInfo =
  coverImageFilename :: string
  songFilename :: string
  difficulties :: "difficulty list"

record BsmLocalMap =
  mapInfo :: MapInfo
  coverUrl :: string
  songUrl :: string
  hash :: string
  path :: string
  songDetails :: "string option"

text \<open>An entry of a loaded archive (\<open>JSZip\<close>): its name in the archive, whether it is a
  directory entry, and its bytes.\<close>

record zip_entry =
  name :: string
  dir :: bool
  content :: string

type_synonym zip = "zip_entry list"

text \<open>
  The collaborators the service calls and whose code is elsewhere, as parameters:
  \<open>parseMapInfoDat (JSON.parse raw)\<close> under \<open>tryit\<close>; the SHA-1 digest, in hexadecimal, of
  all the bytes a hash object was updated with; \<open>JSZip.loadAsync\<close> on the bytes of a file,
  giving the entries of \<open>zip.files\<close> in the order \<open>Object.entries\<close> lists them; the path
  of an installed version; the shared content path; \<open>pathToFileURL(p).href\<close>; the song
  details cache; and \<open>CustomError.fromError(error, message, code)\<close> of the repository's
  error class, whose message and code are optional. The calls to the version service and
  to the song details cache are taken to return.
\<close>

record env =
  parseMapInfoDat :: "string \<Rightarrow> error + MapInfo"
  fromError :: "error \<Rightarrow> (string \<times> string) option \<Rightarrow> error"
  sha1_hex :: "string \<Rightarrow> string"
  loadAsync :: "string \<Rightarrow> error + zip"
  getVersionPath :: "string \<Rightarrow> string"
  sharedContentPath :: string
  pathToFileURL :: "string \<Rightarrow> string"
  getSongDetails :: "string \<Rightarrow> string option"

text \<open>
  The state the service works on: the disk and the song cache. Modelled from the spec: the
  song cache service is not among the sources; it maps a "folder name" to "(manifest,
  hash)", with "explicit invalidate-on-delete, explicit insert-on-load".
\<close>

record world =
  disk :: fs
  songCache :: "string \<rightharpoonup> (MapInfo \<times> string)"

definition getMapInfoFromDirname :: "world \<Rightarrow> string \<Rightarrow> (MapInfo \<times> string) option" where
  "getMapInfoFromDirname w dirname = songCache w dirname"

definition setMapInfoFromDirname :: "world \<Rightarrow> string \<Rightarrow> MapInfo \<times> string \<Rightarrow> world" where
  "setMapInfoFromDirname w dirname info = w\<lparr>songCache := (songCache w)(dirname \<mapsto> info)\<rparr>"

definition deleteMapInfoFromDirname :: "world \<Rightarrow> string \<Rightarrow> world" where
  "deleteMapInfoFromDirname w dirname = w\<lparr>songCache := (songCache w)(dirname := None)\<rparr>"

section \<open>Observables\<close>

text \<open>
  What a subscriber receives. An observer ignores every call after \<open>error\<close> or
  \<open>complete\<close>. The services push one mutable progress object; a notification holds the
  values the object has when it is pushed.
\<close>

datatype 'a notification = Next 'a | Error error | Complete

record 'a observer =
  events :: "'a notification list"
  closed :: bool

definition new_observer :: "'a observer" where
  "new_observer = \<lparr>events = [], closed = False\<rparr>"

definition obs_next :: "'a observer \<Rightarrow> 'a \<Rightarrow> 'a observer" where
  "obs_next ob v = (if closed ob then ob else ob\<lparr>events := events ob @ [Next v]\<rparr>)"

definition obs_error :: "'a observer \<Rightarrow> error \<Rightarrow> 'a observer" where
  "obs_error ob e = (if closed ob then ob else ob\<lparr>events := events ob @ [Error e], closed := True\<rparr>)"

definition obs_complete :: "'a observer \<Rightarrow> 'a observer" where
  "obs_complete ob = (if closed ob then ob else ob\<lparr>events := events ob @ [Complete], closed := True\<rparr>)"

fun snapshots :: "'a notification list \<Rightarrow> 'a list" where
  "snapshots [] = []"
| "snapshots (Next v # es) = v # snapshots es"
| "snapshots (e # es) = snapshots es"

section \<open>The maps folder of a version\<close>

definition LEVELS_ROOT_FOLDER :: string where
  "LEVELS_ROOT_FOLDER = ''Beat Saber_Data''"

definition CUSTOM_LEVELS_FOLDER :: string where
  "CUSTOM_LEVELS_FOLDER = ''CustomLevels''"

definition RELATIVE_MAPS_FOLDER :: string where
  "RELATIVE_MAPS_FOLDER = path_join LEVELS_ROOT_FOLDER CUSTOM_LEVELS_FOLDER"

definition SHARED_MAPS_FOLDER :: string where
  "SHARED_MAPS_FOLDER = ''SharedMaps''"

definition getMapsFolderPath :: "env \<Rightarrow> string option \<Rightarrow> fs \<Rightarrow> error + (string \<times> fs)" where
  "getMapsFolderPath ev version d =
     (case version of
        Some v \<Rightarrow> Inr (path_join (getVersionPath ev v) RELATIVE_MAPS_FOLDER, d)
      | None \<Rightarrow>
          (let sharedMapsPath =
                 path_join_list [sharedContentPath ev, SHARED_MAPS_FOLDER, CUSTOM_LEVELS_FOLDER]
           in if \<not> pathExist d sharedMapsPath
              then (case ensureFolderExist d sharedMapsPath of
                      Inl e \<Rightarrow> Inl e
                    | Inr d' \<Rightarrow> Inr (sharedMapsPath, d'))
              else Inr (sharedMapsPath, d)))"

section \<open>The content hash\<close>

text \<open>
  The hash object is the sequence of bytes it was updated with; \<open>hashFile\<close> feeds it the
  chunks of the read stream, that is the bytes of the file, and rejects when the stream
  fails.
\<close>

definition hashFile :: "fs \<Rightarrow> string \<Rightarrow> string \<Rightarrow> error + string" where
  "hashFile d filePath shasum =
     (case readFile d filePath of
        Inl e \<Rightarrow> Inl e
      | Inr bytes \<Rightarrow> Inr (shasum @ bytes))"

text \<open>\<open>if (filename) { await hashFile(path.join(mapPath, filename)) }\<close>: an absent and an
  empty file name are both falsy.\<close>

definition hashOptional :: "fs \<Rightarrow> string \<Rightarrow> string option \<Rightarrow> string \<Rightarrow> error + string" where
  "hashOptional d mapPath filename shasum =
     (case filename of
        None \<Rightarrow> Inr shasum
      | Some f \<Rightarrow> if f = [] then Inr shasum else hashFile d (path_join mapPath f) shasum)"

fun hashDifficulties :: "fs \<Rightarrow> string \<Rightarrow> difficulty list \<Rightarrow> string \<Rightarrow> error + string" where
  "hashDifficulties d mapPath [] shasum = Inr shasum"
| "hashDifficulties d mapPath (diff # diffs) shasum =
     (case hashOptional d mapPath (beatmapFilename diff) shasum of
        Inl e \<Rightarrow> Inl e
      | Inr s1 \<Rightarrow>
          (case hashOptional d mapPath (lightshowDataFilename diff) s1 of
             Inl e \<Rightarrow> Inl e
           | Inr s2 \<Rightarrow> hashDifficulties d mapPath diffs s2))"

definition computeMapHash :: "env \<Rightarrow> fs \<Rightarrow> string \<Rightarrow> string \<Rightarrow> error + string" where
  "computeMapHash ev d mapPath rawInfoString =
     (case parseMapInfoDat ev rawInfoString of
        Inl e \<Rightarrow>
          Inl (fromError ev e
                 (Some (''Unable to cumpute hash, cannot parse map info at '' @ mapPath,
                        ''cannot-parse-map-info'')))
      | Inr mi \<Rightarrow>
          (case hashDifficulties d mapPath (difficulties mi) rawInfoString of
             Inl e \<Rightarrow> Inl e
           | Inr shasum \<Rightarrow> Inr (sha1_hex ev shasum)))"

section \<open>Loading one folder\<close>

definition getUrlsAndReturn :: "env \<Rightarrow> MapInfo \<Rightarrow> string \<Rightarrow> string \<Rightarrow> BsmLocalMap" where
  "getUrlsAndReturn ev mi h mapPath =
     \<lparr>mapInfo = mi,
      coverUrl = pathToFileURL ev (path_join mapPath (coverImageFilename mi)),
      songUrl = pathToFileURL ev (path_join mapPath (songFilename mi)),
      hash = h,
      path = mapPath,
      songDetails = getSongDetails ev h\<rparr>"

text \<open>\<open>readFile(infoFile, ...)\<close> on the result of \<open>find\<close>: a path that is not a string is
  rejected with a \<open>TypeError\<close>.\<close>

definition readFile_value :: "fs \<Rightarrow> string js_value \<Rightarrow> error + string" where
  "readFile_value d v =
     (case v of
        Defined p \<Rightarrow> readFile d p
      | _ \<Rightarrow> Inl (TypeError ''The path argument must be of type string''))"

text \<open>The result is \<open>Inr None\<close> for \<open>null\<close>, \<open>Inr (Some m)\<close> for a local map, \<open>Inl e\<close> when
  the promise is rejected. The function only reads the disk and the cache.\<close>

definition loadMapInfoFromPath :: "env \<Rightarrow> world \<Rightarrow> string \<Rightarrow> error + BsmLocalMap option" where
  "loadMapInfoFromPath ev w mapPath =
     (case getMapInfoFromDirname w (path_basename mapPath) of
        Some cachedMapInfos \<Rightarrow>
          Inr (Some (getUrlsAndReturn ev (fst cachedMapInfos) (snd cachedMapInfos) mapPath))
      | None \<Rightarrow>
          (let files = getFilesInFolder (disk w) mapPath;
               infoFile = array_find (\<lambda>file. toLowerCase (path_basename file) = ''info.dat'') files
           in if infoFile = Null then Inr None
              else (case readFile_value (disk w) infoFile of
                      Inl e \<Rightarrow> Inl e
                    | Inr rawInfoString \<Rightarrow>
                        (case parseMapInfoDat ev rawInfoString of
                           Inl e \<Rightarrow>
                             Inl (fromError ev e
                                    (Some (''Cannot read map info.dat. Map path: '' @ mapPath,
                                           ''cannot-parse-map-info'')))
                         | Inr mi \<Rightarrow>
                             (case computeMapHash ev (disk w) mapPath rawInfoString of
                                Inl e \<Rightarrow> Inl e
                              | Inr h \<Rightarrow> Inr (Some (getUrlsAndReturn ev mi h mapPath)))))))"

section \<open>Scanning a version's maps (\<open>getMaps\<close>)\<close>

record BsmLocalMapsProgress =
  maps_total :: nat
  loaded :: nat
  maps :: "BsmLocalMap list"

text \<open>
  Modelled from the spec: \<open>splitIntoChunk\<close> and \<open>allSettled\<close> are helpers that are not
  among the sources. The first "splits them into fixed-size batches"; the second awaits
  the folders of a batch, "a failing folder is dropped from results", and with
  \<open>removeFalsy\<close> so is a \<open>null\<close> result. The folders of a batch are taken in their order.
\<close>

definition splitIntoChunk :: "'a list \<Rightarrow> nat \<Rightarrow> 'a list list" where
  "splitIntoChunk xs n =
     map (\<lambda>i. take n (drop (i * n) xs)) [0 ..< (length xs + n - 1) div n]"

type_synonym scan_state = "world \<times> BsmLocalMapsProgress \<times> BsmLocalMapsProgress observer"

text \<open>The callback of \<open>chunk.map\<close> for one folder: the state after it, and what the promise
  settles to (\<open>None\<close> when it is rejected or \<open>null\<close>).\<close>

definition loadChunkItem :: "env \<Rightarrow> string \<Rightarrow> scan_state \<Rightarrow> scan_state \<times> BsmLocalMap option" where
  "loadChunkItem ev mapPath st =
     (case st of (w, progression, observer) \<Rightarrow>
        (case loadMapInfoFromPath ev w mapPath of
           Inl e \<Rightarrow> (st, None)
         | Inr None \<Rightarrow> (st, None)
         | Inr (Some m) \<Rightarrow>
             (let w' = setMapInfoFromDirname w (path_basename mapPath) (mapInfo m, hash m);
                  progression' = progression\<lparr>loaded := loaded progression + 1\<rparr>
              in ((w', progression', obs_next observer progression'), Some m))))"

fun loadChunk :: "env \<Rightarrow> string list \<Rightarrow> scan_state \<Rightarrow> scan_state \<times> BsmLocalMap list" where
  "loadChunk ev [] st = (st, [])"
| "loadChunk ev (mapPath # rest) st =
     (case loadChunkItem ev mapPath st of
        (st1, r) \<Rightarrow>
          (case loadChunk ev rest st1 of
             (st2, rs) \<Rightarrow> (st2, (case r of None \<Rightarrow> rs | Some m \<Rightarrow> m # rs))))"

fun loadChunks :: "env \<Rightarrow> string list list \<Rightarrow> scan_state \<Rightarrow> BsmLocalMap list
    \<Rightarrow> scan_state \<times> BsmLocalMap list" where
  "loadChunks ev [] st loadedMaps = (st, loadedMaps)"
| "loadChunks ev (chunk # chunks) st loadedMaps =
     (case loadChunk ev chunk st of
        (st1, mapsInfo) \<Rightarrow> loadChunks ev chunks st1 (loadedMaps @ mapsInfo))"

text \<open>
  One subscription to \<open>getMaps(version)\<close>: the notifications the subscriber receives and
  the state afterwards. The wait for the song details cache comes first in the source and
  touches neither the disk nor the song cache.
\<close>

definition getMaps :: "env \<Rightarrow> string option \<Rightarrow> world
    \<Rightarrow> BsmLocalMapsProgress notification list \<times> world" where
  "getMaps ev version w =
     (let progression = \<lparr>maps_total = 0, loaded = 0, maps = []\<rparr>;
          observer = new_observer
      in case getMapsFolderPath ev version (disk w) of
           Inl e \<Rightarrow> (events (obs_error observer e), w)
         | Inr (levelsFolder, d1) \<Rightarrow>
             (let w1 = w\<lparr>disk := d1\<rparr>
              in if \<not> pathExist d1 levelsFolder
                 then (events (obs_complete (obs_complete observer)), w1)
                 else (let levelsPaths = getFoldersInFolder d1 levelsFolder;
                           progression1 = progression\<lparr>maps_total := length levelsPaths\<rparr>;
                           pathChunks = splitIntoChunk levelsPaths 50
                       in case loadChunks ev pathChunks (w1, progression1, observer) [] of
                            ((w2, progression2, observer2), loadedMaps) \<Rightarrow>
                              (let progression3 = progression2\<lparr>maps := loadedMaps\<rparr>;
                                   observer3 = obs_next observer2 progression3
                               in (events (obs_complete observer3), w2)))))"

section \<open>Deleting maps\<close>

record DeleteMapsProgress =
  delete_total :: nat
  deleted :: nat

record 'a Progression =
  total :: nat
  current :: nat
  data :: "'a option"

type_synonym delete_state = "world \<times> DeleteMapsProgress \<times> DeleteMapsProgress observer"

fun deleteMaps_loop :: "string list \<Rightarrow> delete_state \<Rightarrow> delete_state" where
  "deleteMaps_loop [] st = st"
| "deleteMaps_loop (mapPath # rest) (w, progress, observer) =
     (if pathExistsSync (disk w) mapPath
      then (let w1 = deleteMapInfoFromDirname (w\<lparr>disk := deleteFolder (disk w) mapPath\<rparr>)
                       (path_basename mapPath);
                progress1 = progress\<lparr>deleted := deleted progress + 1\<rparr>
            in deleteMaps_loop rest (w1, progress1, obs_next observer progress1))
      else deleteMaps_loop rest (w, progress, obs_next observer progress))"

definition deleteMaps :: "BsmLocalMap list \<Rightarrow> world \<Rightarrow> DeleteMapsProgress notification list \<times> world" where
  "deleteMaps ms w =
     (let progress = \<lparr>delete_total = length ms, deleted = 0\<rparr>
      in case deleteMaps_loop (map path ms) (w, progress, new_observer) of
           (w', progress', observer') \<Rightarrow> (events (obs_complete observer'), w'))"

type_synonym hash_delete_state = "world \<times> unit Progression \<times> unit Progression observer"

text \<open>The body of the loop of \<open>deleteMapsFromHashs\<close> for one folder; \<open>tryit\<close> turns a
  rejected load into no result.\<close>

definition deleteMapsFromHashs_step :: "env \<Rightarrow> string list \<Rightarrow> string \<Rightarrow> hash_delete_state
    \<Rightarrow> hash_delete_state" where
  "deleteMapsFromHashs_step ev hashs mapPath st =
     (case st of (w, progress, observer) \<Rightarrow>
        (case loadMapInfoFromPath ev w mapPath of
           Inr (Some m) \<Rightarrow>
             (if hash m \<in> set hashs
              then (let w1 = deleteMapInfoFromDirname (w\<lparr>disk := deleteFolder (disk w) mapPath\<rparr>)
                               (path_basename mapPath);
                        progress1 = progress\<lparr>current := current progress + 1\<rparr>
                    in (w1, progress1, obs_next observer progress1))
              else (w, progress, obs_next observer progress))
         | _ \<Rightarrow> (w, progress, obs_next observer progress)))"

fun deleteMapsFromHashs_loop :: "env \<Rightarrow> string list \<Rightarrow> string list \<Rightarrow> hash_delete_state
    \<Rightarrow> hash_delete_state" where
  "deleteMapsFromHashs_loop ev hashs [] st = st"
| "deleteMapsFromHashs_loop ev hashs (mapPath # rest) st =
     deleteMapsFromHashs_loop ev hashs rest (deleteMapsFromHashs_step ev hashs mapPath st)"

definition deleteMapsFromHashs :: "env \<Rightarrow> string \<Rightarrow> string list \<Rightarrow> world
    \<Rightarrow> unit Progression notification list \<times> world" where
  "deleteMapsFromHashs ev version hashs w =
     (let progress = \<lparr>total = length hashs, current = 0, data = None\<rparr>;
          observer = new_observer
      in case getMapsFolderPath ev (Some version) (disk w) of
           Inl e \<Rightarrow> (events (obs_complete (obs_error observer e)), w)
         | Inr (versionMapsPath, d1) \<Rightarrow>
             (let mapsPaths = getFoldersInFolder d1 versionMapsPath
              in case deleteMapsFromHashs_loop ev hashs mapsPaths (w\<lparr>disk := d1\<rparr>, progress, observer) of
                   (w', progress', observer') \<Rightarrow> (events (obs_complete observer'), w')))"

section \<open>Importing archives\<close>

text \<open>
  \<open>INFO_DAT_REGEX\<close> on POSIX is \<open>/(^|\/)(I|i)nfo.dat$/\<close>: the name ends with \<open>I\<close> or
  \<open>i\<close>, \<open>nfo\<close>, any one character that is not a line terminator, \<open>dat\<close>, and this
  ending starts the name or follows a separator.
\<close>

fun INFO_DAT_REGEX_rev :: "string \<Rightarrow> bool" where
  "INFO_DAT_REGEX_rev (c8 # c7 # c6 # c5 # c4 # c3 # c2 # c1 # before) =
     ((c1 = CHR ''I'' \<or> c1 = CHR ''i'') \<and> c2 = CHR ''n'' \<and> c3 = CHR ''f'' \<and> c4 = CHR ''o''
      \<and> c5 \<noteq> CHR 0x0A \<and> c5 \<noteq> CHR 0x0D
      \<and> c6 = CHR ''d'' \<and> c7 = CHR ''a'' \<and> c8 = CHR ''t''
      \<and> (case before of [] \<Rightarrow> True | c # cs \<Rightarrow> c = CHR ''/''))"
| "INFO_DAT_REGEX_rev s = False"

definition INFO_DAT_REGEX_test :: "string \<Rightarrow> bool" where
  "INFO_DAT_REGEX_test s = INFO_DAT_REGEX_rev (rev s)"

text \<open>\<open>zip.file(regex)\<close>: the entries that are not directories and whose name matches.\<close>

definition zip_file_regex :: "zip \<Rightarrow> zip_entry list" where
  "zip_file_regex z = filter (\<lambda>file. \<not> dir file \<and> INFO_DAT_REGEX_test (name file)) z"

text \<open>\<open>zip.files\<close> as \<open>Object.entries\<close> lists it: each entry under its name.\<close>

definition zip_files :: "zip \<Rightarrow> (string \<times> zip_entry) list" where
  "zip_files z = map (\<lambda>file. (name file, file)) z"

text \<open>
  \<open>zip.folder(relativeFolder).forEach(...)\<close>: the root is the folder name with a closing
  separator; the callback gets every entry whose name starts with the root and goes on
  after it, under the rest of its name.
\<close>

definition zip_folder_forEach :: "zip \<Rightarrow> string \<Rightarrow> (string \<times> zip_entry) list" where
  "zip_folder_forEach z relativeFolder =
     (let root = (if relativeFolder \<noteq> [] \<and> last relativeFolder = CHR ''/''
                  then relativeFolder else relativeFolder @ ''/'')
      in map (\<lambda>file. (drop (length root) (name file), file))
           (filter (\<lambda>file. drop (length root) (name file) \<noteq> []
                           \<and> take (length root) (name file) = root) z))"

text \<open>\<open>JSZip.loadAsync(await readFile(zipPath))\<close>.\<close>

definition loadZip :: "env \<Rightarrow> fs \<Rightarrow> string \<Rightarrow> error + zip" where
  "loadZip ev d zipPath =
     (case readFile d zipPath of
        Inl e \<Rightarrow> Inl e
      | Inr bytes \<Rightarrow> loadAsync ev bytes)"

text \<open>The copy loop of \<open>importMap\<close>: the error that stopped it, if any, and the disk as the
  loop left it.\<close>

fun extractFiles :: "string \<Rightarrow> (string \<times> zip_entry) list \<Rightarrow> fs \<Rightarrow> error option \<times> fs" where
  "extractFiles mapPath [] d = (None, d)"
| "extractFiles mapPath ((relativePath, file) # rest) d =
     (let filepath = path_join mapPath relativePath
      in case (if dir file then ensureFolderExist d filepath
               else writeFile d filepath (content file)) of
           Inl e \<Rightarrow> (Some e, d)
         | Inr d' \<Rightarrow> extractFiles mapPath rest d')"

text \<open>The \<open>try\<close> block of \<open>importMap\<close>, once \<open>mapPath\<close> and \<open>existing\<close> are set.\<close>

definition importMap_try :: "env \<Rightarrow> zip \<Rightarrow> string \<Rightarrow> string \<Rightarrow> bool \<Rightarrow> world
    \<Rightarrow> (error + BsmLocalMap) \<times> world" where
  "importMap_try ev z relativeFolder mapPath existing w =
     (case (if \<not> existing then mkdir_recursive (disk w) mapPath else Inr (disk w)) of
        Inl e \<Rightarrow> (Inl e, w)
      | Inr d1 \<Rightarrow>
          (let files = (if relativeFolder = [] then zip_files z
                        else zip_folder_forEach z relativeFolder)
           in case extractFiles mapPath files d1 of
                (Some e, d2) \<Rightarrow> (Inl e, w\<lparr>disk := d2\<rparr>)
              | (None, d2) \<Rightarrow>
                  (let w2 = w\<lparr>disk := d2\<rparr>
                   in case loadMapInfoFromPath ev w2 mapPath of
                        Inl e \<Rightarrow> (Inl e, w2)
                      | Inr None \<Rightarrow>
                          (Inl (TypeError ''Cannot set properties of null (setting songDetails)''), w2)
                      | Inr (Some localMap) \<Rightarrow>
                          (Inr (localMap\<lparr>songDetails := getSongDetails ev (hash localMap)\<rparr>), w2))))"

text \<open>
  \<open>importMap\<close>: the result (the local map, or the error thrown) and the state afterwards.
  In the \<open>catch\<close> block, an error thrown by \<open>unlinkSync\<close> leaves the block at once.
\<close>

definition importMap :: "env \<Rightarrow> zip \<Rightarrow> string \<Rightarrow> string \<Rightarrow> string \<Rightarrow> string \<Rightarrow> world
    \<Rightarrow> (error + BsmLocalMap) \<times> world" where
  "importMap ev z zipPath relativeFolder mapName mapsFolder w =
     (let mapPath = path_join mapsFolder mapName;
          existing = pathExistsSync (disk w) mapPath
      in case importMap_try ev z relativeFolder mapPath existing w of
           (Inr localMap, w') \<Rightarrow> (Inr localMap, w')
         | (Inl err, w') \<Rightarrow>
             (if \<not> existing \<and> mapPath \<noteq> []
              then (case unlinkSync (disk w') mapPath of
                      Inl e' \<Rightarrow> (Inl e', w')
                    | Inr d' \<Rightarrow>
                        (Inl (if is_CustomError err then err else fromError ev err None),
                         w'\<lparr>disk := d'\<rparr>))
              else (Inl (if is_CustomError err then err else fromError ev err None), w')))"

record zip_info =
  zip_path :: string
  single :: bool
  folders :: "string list"

text \<open>The planning loop of \<open>handleZipPaths\<close>: \<open>info.zips\<close> and \<open>info.total\<close>.\<close>

fun countMaps :: "env \<Rightarrow> fs \<Rightarrow> string list \<Rightarrow> zip_info list \<times> nat \<Rightarrow> zip_info list \<times> nat" where
  "countMaps ev d [] info = info"
| "countMaps ev d (zipPath # rest) (zips, n) =
     (case loadZip ev d zipPath of
        Inl e \<Rightarrow> countMaps ev d rest (zips, n)
      | Inr z \<Rightarrow>
          (let files = zip_file_regex z
           in if length files = 0 then countMaps ev d rest (zips, n)
              else countMaps ev d rest
                     (zips @ [\<lparr>zip_path = zipPath,
                               single = (find (\<lambda>file. path_sep \<in> set (name file)) files = None),
                               folders = map (\<lambda>file. path_dirname (name file)) files\<rparr>],
                      n + length files)))"

type_synonym import_state =
  "world \<times> BsmLocalMap Progression \<times> BsmLocalMap Progression observer"

text \<open>The body of the loop over the folders of an archive that holds several maps.\<close>

definition importFolder :: "env \<Rightarrow> zip \<Rightarrow> string \<Rightarrow> string \<Rightarrow> string \<Rightarrow> import_state
    \<Rightarrow> import_state" where
  "importFolder ev z zipPath mapsFolder relativeFolder st =
     (case st of (w, progress, observer) \<Rightarrow>
        (let progress1 = progress\<lparr>current := current progress + 1\<rparr>
         in case importMap ev z zipPath relativeFolder (path_basename relativeFolder) mapsFolder w of
              (Inr localMap, w1) \<Rightarrow>
                (let progress2 = progress1\<lparr>data := Some localMap\<rparr>
                 in (w1, progress2, obs_next observer progress2))
            | (Inl e, w1) \<Rightarrow>
                (let progress2 = progress1\<lparr>data := None\<rparr>
                 in (w1, progress2, obs_next observer progress2))))"

fun importFolders :: "env \<Rightarrow> zip \<Rightarrow> string \<Rightarrow> string \<Rightarrow> string list \<Rightarrow> import_state
    \<Rightarrow> import_state" where
  "importFolders ev z zipPath mapsFolder [] st = st"
| "importFolders ev z zipPath mapsFolder (relativeFolder # rest) st =
     importFolders ev z zipPath mapsFolder rest
       (importFolder ev z zipPath mapsFolder relativeFolder st)"

text \<open>The body of the loop over the planned archives.\<close>

definition importZip :: "env \<Rightarrow> string \<Rightarrow> zip_info \<Rightarrow> import_state \<Rightarrow> import_state" where
  "importZip ev mapsFolder zipInfo st =
     (case st of (w, progress, observer) \<Rightarrow>
        (case loadZip ev (disk w) (zip_path zipInfo) of
           Inl e \<Rightarrow>
             (let progress1 = progress\<lparr>data := None\<rparr>
              in (w, progress1, obs_next observer progress1))
         | Inr z \<Rightarrow>
             (if single zipInfo
              then (let progress1 = progress\<lparr>current := current progress + 1\<rparr>
                    in case importMap ev z (zip_path zipInfo) []
                              (path_basename_ext (zip_path zipInfo) ''.zip'') mapsFolder w of
                         (Inr localMap, w1) \<Rightarrow>
                           (let progress2 = progress1\<lparr>data := Some localMap\<rparr>
                            in (w1, progress2, obs_next observer progress2))
                       | (Inl e, w1) \<Rightarrow>
                           (let progress2 = progress1\<lparr>data := None\<rparr>
                            in (w1, progress2, obs_next observer progress2)))
              else importFolders ev z (zip_path zipInfo) mapsFolder (folders zipInfo) st)))"

fun importZips :: "env \<Rightarrow> string \<Rightarrow> zip_info list \<Rightarrow> import_state \<Rightarrow> import_state" where
  "importZips ev mapsFolder [] st = st"
| "importZips ev mapsFolder (zipInfo # rest) st =
     importZips ev mapsFolder rest (importZip ev mapsFolder zipInfo st)"

definition NO_INFO_DAT_MESSAGE :: string where
  \<open>NO_INFO_DAT_MESSAGE = ''No "Info.dat" file located in any of the zip files''\<close>

definition handleZipPaths :: "env \<Rightarrow> string list \<Rightarrow> BsmLocalMap Progression observer
    \<Rightarrow> string option \<Rightarrow> world \<Rightarrow> (error + unit) \<times> world \<times> BsmLocalMap Progression observer" where
  "handleZipPaths ev zipPaths observer version w =
     (case countMaps ev (disk w) zipPaths ([], 0) of
        (zips, n) \<Rightarrow>
          (if n = 0 then (Inl (CustomError NO_INFO_DAT_MESSAGE ''invalid-zip''), w, observer)
           else (let progress = \<lparr>total = n, current = 0, data = None\<rparr>
                 in case getMapsFolderPath ev version (disk w) of
                      Inl e \<Rightarrow> (Inl e, w, observer)
                    | Inr (mapsFolder, d1) \<Rightarrow>
                        (case importZips ev mapsFolder zips
                                (w\<lparr>disk := d1\<rparr>, progress, obs_next observer progress) of
                           (w', progress', observer') \<Rightarrow> (Inr (), w', observer')))))"

definition importMaps :: "env \<Rightarrow> string list \<Rightarrow> string option \<Rightarrow> world
    \<Rightarrow> BsmLocalMap Progression notification list \<times> world" where
  "importMaps ev zipPaths version w =
     (case handleZipPaths ev zipPaths new_observer version w of
        (Inl e, w', observer') \<Rightarrow> (events (obs_complete (obs_error observer' e)), w')
      | (Inr u, w', observer') \<Rightarrow> (events (obs_complete observer'), w'))"

section \<open>Reference notions and sample inputs\<close>

text \<open>
  The file names a manifest refers to, in the order the spec gives: for each variant in
  the order of the manifest, the chart file, then the lightshow file.
\<close>

definition optional_name :: "string option \<Rightarrow> string list" where
  "optional_name filename = (case filename of None \<Rightarrow> [] | Some f \<Rightarrow> if f = [] then [] else [f])"

definition referencedFiles :: "MapInfo \<Rightarrow> string list" where
  "referencedFiles mi =
     concat (map (\<lambda>diff. optional_name (beatmapFilename diff)
                          @ optional_name (lightshowDataFilename diff)) (difficulties mi))"

definition fileBytes :: "fs \<Rightarrow> string \<Rightarrow> string option" where
  "fileBytes d p = (case readFile d p of Inl e \<Rightarrow> None | Inr bytes \<Rightarrow> Some bytes)"

definition digest_of :: "error + string \<Rightarrow> string option" where
  "digest_of r = (case r of Inl e \<Rightarrow> None | Inr h \<Rightarrow> Some h)"

text \<open>The manifest entries an archive path yields at planning: none when the archive
  cannot be read or decoded.\<close>

definition matchedManifests :: "env \<Rightarrow> fs \<Rightarrow> string \<Rightarrow> zip_entry list" where
  "matchedManifests ev d zipPath =
     (case loadZip ev d zipPath of Inl e \<Rightarrow> [] | Inr z \<Rightarrow> zip_file_regex z)"

text \<open>
  The folders whose loaded hash is among the requested ones, each folder loaded when the
  loop of \<open>deleteMapsFromHashs\<close> reaches it, that is after the folders before it were
  removed.
\<close>

definition hash_requested :: "env \<Rightarrow> string list \<Rightarrow> world \<Rightarrow> string \<Rightarrow> bool" where
  "hash_requested ev hashs w mapPath =
     (case loadMapInfoFromPath ev w mapPath of
        Inr (Some m) \<Rightarrow> hash m \<in> set hashs
      | _ \<Rightarrow> False)"

definition remove_map :: "world \<Rightarrow> string \<Rightarrow> world" where
  "remove_map w mapPath =
     \<lparr>disk = deleteFolder (disk w) mapPath,
      songCache = (songCache w)(path_basename mapPath := None)\<rparr>"

fun requestedFolders :: "env \<Rightarrow> string list \<Rightarrow> string list \<Rightarrow> world \<Rightarrow> string list" where
  "requestedFolders ev hashs [] w = []"
| "requestedFolders ev hashs (mapPath # rest) w =
     (if hash_requested ev hashs w mapPath
      then mapPath # requestedFolders ev hashs rest (remove_map w mapPath)
      else requestedFolders ev hashs rest w)"

text \<open>A name that is one plain path segment.\<close>

definition plain_segment :: "string \<Rightarrow> bool" where
  "plain_segment s = (s \<noteq> [] \<and> path_sep \<notin> set s \<and> s \<noteq> ''.'' \<and> s \<noteq> ''..'')"

text \<open>
  Sample collaborators: a parser that accepts the texts starting with a brace and gives
  one manifest with two variants; a digest that shows the bytes it was given; a decoder
  that knows four archives.
\<close>

definition demo_manifest :: MapInfo where
  "demo_manifest =
     \<lparr>coverImageFilename = ''cover.png'', songFilename = ''song.ogg'',
      difficulties =
        [\<lparr>beatmapFilename = Some ''Easy.dat'', lightshowDataFilename = None\<rparr>,
         \<lparr>beatmapFilename = Some ''Hard.dat'', lightshowDataFilename = Some ''Lights.dat''\<rparr>]\<rparr>"

definition demo_parse :: "string \<Rightarrow> error + MapInfo" where
  "demo_parse raw =
     (if take 1 raw = ''{'' then Inr demo_manifest else Inl (ExternalError ''Unexpected token''))"

definition demo_map_entries :: "string \<Rightarrow> zip" where
  "demo_map_entries prefix =
     [\<lparr>name = prefix @ ''Info.dat'', dir = False, content = ''{info}''\<rparr>,
      \<lparr>name = prefix @ ''Easy.dat'', dir = False, content = ''easy''\<rparr>,
      \<lparr>name = prefix @ ''Hard.dat'', dir = False, content = ''hard''\<rparr>,
      \<lparr>name = prefix @ ''Lights.dat'', dir = False, content = ''lights''\<rparr>]"

text \<open>An archive whose third entry lies in a folder the archive has no entry for.\<close>

definition demo_partial_zip :: zip where
  "demo_partial_zip =
     [\<lparr>name = ''Info.dat'', dir = False, content = ''{info}''\<rparr>,
      \<lparr>name = ''Easy.dat'', dir = False, content = ''easy''\<rparr>,
      \<lparr>name = ''sub/Hard.dat'', dir = False, content = ''hard''\<rparr>]"

text \<open>An archive of three maps; the manifest of the second one is not valid.\<close>

definition demo_pack_zip :: zip where
  "demo_pack_zip =
     [\<lparr>name = ''A/'', dir = True, content = []\<rparr>] @ demo_map_entries ''A/''
     @ [\<lparr>name = ''B/'', dir = True, content = []\<rparr>,
        \<lparr>name = ''B/Info.dat'', dir = False, content = ''not json''\<rparr>,
        \<lparr>name = ''C/'', dir = True, content = []\<rparr>] @ demo_map_entries ''C/''"

definition demo_loadAsync :: "string \<Rightarrow> error + zip" where
  "demo_loadAsync bytes =
     (if bytes = ''zip:single'' then Inr (demo_map_entries [])
      else if bytes = ''zip:partial'' then Inr demo_partial_zip
      else if bytes = ''zip:pack'' then Inr demo_pack_zip
      else if bytes = ''zip:nomap'' then
        Inr [\<lparr>name = ''readme.txt'', dir = False, content = ''hello''\<rparr>]
      else Inl (ExternalError ''not a zip file''))"

definition demo_fromError :: "error \<Rightarrow> (string \<times> string) option \<Rightarrow> error" where
  "demo_fromError e details =
     (case details of
        None \<Rightarrow> CustomError (error_message e) []
      | Some (message, code) \<Rightarrow> CustomError message code)"

definition demo_env :: env where
  "demo_env =
     \<lparr>parseMapInfoDat = demo_parse,
      fromError = demo_fromError,
      sha1_hex = (\<lambda>bytes. ''sha1:'' @ bytes),
      loadAsync = demo_loadAsync,
      getVersionPath = (\<lambda>v. ''/bs/'' @ v),
      sharedContentPath = ''/shared'',
      pathToFileURL = (\<lambda>p. ''file://'' @ p),
      getSongDetails = (\<lambda>h. None)\<rparr>"

definition demo_levels :: string where
  "demo_levels = ''/bs/1.0/Beat Saber_Data/CustomLevels''"

text \<open>A disk with an empty maps folder for version 1.0 and four archives to import.\<close>

definition demo_disk :: fs where
  "demo_disk =
     [(''/'', Dir), (''/bs'', Dir), (''/bs/1.0'', Dir), (''/bs/1.0/Beat Saber_Data'', Dir),
      (''/bs/1.0/Beat Saber_Data/CustomLevels'', Dir),
      (''/dl'', Dir),
      (''/dl/MyMap.zip'', File ''zip:single''),
      (''/dl/Partial.zip'', File ''zip:partial''),
      (''/dl/Pack.zip'', File ''zip:pack''),
      (''/dl/NoMap.zip'', File ''zip:nomap'')]"

definition demo_world :: world where
  "demo_world = \<lparr>disk = demo_disk, songCache = Map.empty\<rparr>"

text \<open>A disk where version 1.0 has two maps installed, \<open>A\<close> and \<open>B\<close>, and a folder
  \<open>Notes\<close> that holds no manifest.\<close>

definition demo_installed_disk :: fs where
  "demo_installed_disk =
     [(''/'', Dir), (''/bs'', Dir), (''/bs/1.0'', Dir), (''/bs/1.0/Beat Saber_Data'', Dir),
      (''/bs/1.0/Beat Saber_Data/CustomLevels'', Dir),
      (''/bs/1.0/Beat Saber_Data/CustomLevels/A'', Dir),
      (''/bs/1.0/Beat Saber_Data/CustomLevels/A/Info.dat'', File ''{info}''),
      (''/bs/1.0/Beat Saber_Data/CustomLevels/A/Easy.dat'', File ''easy''),
      (''/bs/1.0/Beat Saber_Data/CustomLevels/A/Hard.dat'', File ''hard''),
      (''/bs/1.0/Beat Saber_Data/CustomLevels/A/Lights.dat'', File ''lights''),
      (''/bs/1.0/Beat Saber_Data/CustomLevels/B'', Dir),
      (''/bs/1.0/Beat Saber_Data/CustomLevels/B/info.dat'', File ''{info}''),
      (''/bs/1.0/Beat Saber_Data/CustomLevels/B/Easy.dat'', File ''EASY''),
      (''/bs/1.0/Beat Saber_Data/CustomLevels/B/Hard.dat'', File ''hard''),
      (''/bs/1.0/Beat Saber_Data/CustomLevels/B/Lights.dat'', File ''lights''),
      (''/bs/1.0/Beat Saber_Data/CustomLevels/Notes'', Dir),
      (''/bs/1.0/Beat Saber_Data/CustomLevels/Notes/readme.txt'', File ''hello'')]"

definition demo_installed :: world where
  "demo_installed = \<lparr>disk = demo_installed_disk, songCache = Map.empty\<rparr>"

text \<open>
  A counter \<open>f\<close> of the progress object has not decreased so far: the observer is open
  and has received snapshots only, the values of \<open>f\<close> in these snapshots are in ascending
  order, and none is above the value in the progress object now.
\<close>

definition counter_ascending :: "('a \<Rightarrow> nat) \<Rightarrow> 'a \<Rightarrow> 'a observer \<Rightarrow> bool" where
  "counter_ascending f progress observer =
     (\<not> closed observer
      \<and> events observer = map Next (snapshots (events observer))
      \<and> sorted (map f (snapshots (events observer)))
      \<and> (\<forall>s \<in> set (snapshots (events observer)). f s \<le> f progress))"

text \<open>
  A local map is in the cache: the cache holds its manifest and hash under the name of its
  folder, and the map is what \<open>loadMapInfoFromPath\<close> builds from that entry.
\<close>

definition in_cache :: "env \<Rightarrow> world \<Rightarrow> BsmLocalMap \<Rightarrow> bool" where
  "in_cache ev w m =
     (getMapInfoFromDirname w (path_basename (path m)) = Some (mapInfo m, hash m)
      \<and> m = getUrlsAndReturn ev (mapInfo m) (hash m) (path m))"

text \<open>Until its final snapshot, the progress object of the scan holds no maps.\<close>

definition maps_unset :: "BsmLocalMapsProgress \<Rightarrow> BsmLocalMapsProgress observer \<Rightarrow> bool" where
  "maps_unset progression ob =
     (maps progression = [] \<and> (\<forall>s \<in> set (snapshots (events ob)). maps s = []))"

section \<open>Loading a folder that holds no manifest\<close>

lemma loadMapInfoFromPath_without_manifest:
  assumes "getMapInfoFromDirname w (path_basename mapPath) = None"
    and "\<forall>file \<in> set (getFilesInFolder (disk w) mapPath).
           toLowerCase (path_basename file) \<noteq> ''info.dat''"
  shows "loadMapInfoFromPath ev w mapPath
           = Inl (TypeError ''The path argument must be of type string'')"
proof -
  have "List.find (\<lambda>file. toLowerCase (path_basename file) = ''info.dat'')
          (getFilesInFolder (disk w) mapPath) = None"
    using assms(2) by (simp add: find_None_iff)
  then have "array_find (\<lambda>file. toLowerCase (path_basename file) = ''info.dat'')
          (getFilesInFolder (disk w) mapPath) = Undefined"
    by (simp add: array_find_def)
  then show ?thesis
    using assms(1) by (simp add: loadMapInfoFromPath_def readFile_value_def)
qed

text \<open>
  C3. The claim: for a folder whose listing holds no file named \<open>info.dat\<close> (whatever
  the case of the letters), \<open>loadMapInfoFromPath\<close> on a cache miss returns \<open>null\<close> and does
  not raise. The code tests the result of \<open>find\<close> against \<open>null\<close>, and \<open>find\<close> gives
  \<open>undefined\<close> when nothing matches, so the test never holds and \<open>readFile(undefined)\<close>
  rejects: on the folder \<open>Notes\<close>, which holds only \<open>readme.txt\<close> and is not cached, the
  load raises a \<open>TypeError\<close>.
\<close>

theorem loadMapInfoFromPath_Notes_raises:
  "getMapInfoFromDirname demo_installed (path_basename (demo_levels @ ''/Notes'')) = None
   \<and> getFilesInFolder (disk demo_installed) (demo_levels @ ''/Notes'')
       = [demo_levels @ ''/Notes/readme.txt'']
   \<and> loadMapInfoFromPath demo_env demo_installed (demo_levels @ ''/Notes'')
       = Inl (TypeError ''The path argument must be of type string'')"
  by code_simp

section \<open>A failed import into a new folder\<close>

text \<open>
  No call of the copy loop removes or replaces a directory, and \<open>unlinkSync\<close> does not
  remove one either: whenever \<open>importMap\<close> fails after it created the destination folder,
  the folder is still on the disk afterwards and the error that leaves \<open>importMap\<close> is the
  \<open>EISDIR\<close> of \<open>unlinkSync\<close>.
\<close>

lemma map_of_filter_key:
  "map_of (filter (\<lambda>(k, v). k \<noteq> p) d) q = (if q = p then None else map_of d q)"
  by (induction d) auto

lemma map_of_fs_put:
  "map_of (fs_put d p n) k = (if k = fs_key p then Some n else map_of d k)"
  by (simp add: fs_put_def map_of_filter_key)

lemma fs_key_idem: "fs_key (fs_key p) = fs_key p"
proof -
  let ?t = "dropWhile (\<lambda>c. c = path_sep) (rev p)"
  show ?thesis
  proof (cases "?t = []")
    case True
    show ?thesis
    proof (cases "p = []")
      case pe: True
      show ?thesis unfolding pe by (simp add: fs_key_def)
    next
      case pn: False
      have a: "fs_key p = [path_sep]"
        by (simp only: fs_key_def Let_def True rev.simps simp_thms pn if_True not_False_eq_True)
      have b: "fs_key [path_sep] = [path_sep]" by (simp add: fs_key_def)
      show ?thesis by (simp only: a b)
    qed
  next
    case False
    then have r: "rev ?t \<noteq> []" by (simp only: rev_is_Nil_conv not_False_eq_True)
    have a: "fs_key p = rev ?t"
      by (simp only: fs_key_def Let_def r simp_thms if_False)
    have i: "dropWhile (\<lambda>c. c = path_sep) ?t = ?t" by (rule dropWhile_idem)
    have b: "fs_key (rev ?t) = rev ?t"
      by (simp only: fs_key_def Let_def rev_rev_ident i r simp_thms if_False)
    show ?thesis by (simp only: a b)
  qed
qed

lemma fs_lookup_Dir_iff: "fs_lookup d p = Some Dir \<longleftrightarrow> map_of d (fs_key p) = Some Dir"
  by (auto simp: fs_lookup_def split: option.splits node.splits if_splits)

lemma writeFile_keeps_dir:
  assumes "writeFile d p c = Inr d'" and "map_of d k = Some Dir"
  shows "map_of d' k = Some Dir"
proof -
  from assms(1) have np: "fs_lookup d p \<noteq> Some Dir" and d': "d' = fs_put d p (File c)"
    by (auto simp: writeFile_def split: if_splits option.splits node.splits)
  from np have "map_of d (fs_key p) \<noteq> Some Dir" by (simp add: fs_lookup_Dir_iff)
  with assms(2) have "k \<noteq> fs_key p" by auto
  with assms(2) show ?thesis by (simp add: d' map_of_fs_put)
qed

lemma mkdir_fold_keeps:
  assumes "map_of acc k = Some Dir"
  shows "map_of (foldr (\<lambda>q acc. if map_of acc q = None then fs_put acc q Dir else acc) ps acc) k
           = Some Dir"
  using assms
proof (induction ps)
  case Nil
  then show ?case by simp
next
  case (Cons p ps)
  then show ?case by (auto simp: map_of_fs_put)
qed

lemma mkdir_fold_files:
  assumes "map_of (foldr (\<lambda>q acc. if map_of acc q = None then fs_put acc q Dir else acc) ps d) k
             = Some (File c)"
  shows "map_of d k = Some (File c)"
  using assms
proof (induction ps)
  case Nil
  then show ?case by simp
next
  case (Cons p ps)
  then show ?case by (auto simp: map_of_fs_put split: if_splits)
qed

lemma mkdir_recursive_Inr:
  assumes "mkdir_recursive d p = Inr d'"
  shows "d' = foldr (\<lambda>q acc. if map_of acc q = None then fs_put acc q Dir else acc)
                (map fs_key (p # path_ancestors (length p) p)) d"
    and "\<not> (\<exists>q \<in> set (map fs_key (p # path_ancestors (length p) p)).
              (case map_of d q of Some (File c) \<Rightarrow> True | _ \<Rightarrow> False))"
proof -
  let ?C = "\<exists>q \<in> set (map fs_key (p # path_ancestors (length p) p)).
              (case map_of d q of Some (File c) \<Rightarrow> True | _ \<Rightarrow> False)"
  have m: "mkdir_recursive d p
             = (if ?C then Inl (FsError (if map_of d (fs_key p) = None then ''ENOTDIR'' else ''EEXIST'') p)
                else Inr (foldr (\<lambda>q acc. if map_of acc q = None then fs_put acc q Dir else acc)
                            (map fs_key (p # path_ancestors (length p) p)) d))"
    unfolding mkdir_recursive_def Let_def ..
  show "\<not> ?C"
  proof
    assume ?C
    with m assms show False by (simp only: if_True) simp
  qed
  then have "mkdir_recursive d p
       = Inr (foldr (\<lambda>q acc. if map_of acc q = None then fs_put acc q Dir else acc)
                            (map fs_key (p # path_ancestors (length p) p)) d)"
    unfolding m by (simp only: if_False)
  with assms show "d' = foldr (\<lambda>q acc. if map_of acc q = None then fs_put acc q Dir else acc)
                (map fs_key (p # path_ancestors (length p) p)) d"
    by (simp only: sum.inject)
qed

lemma mkdir_recursive_keeps_dir:
  assumes "mkdir_recursive d p = Inr d'" and "map_of d k = Some Dir"
  shows "map_of d' k = Some Dir"
  unfolding mkdir_recursive_Inr(1) [OF assms(1)] by (rule mkdir_fold_keeps [OF assms(2)])

lemma mkdir_recursive_creates:
  assumes "mkdir_recursive d p = Inr d'"
  shows "map_of d' (fs_key p) = Some Dir"
proof -
  let ?f = "\<lambda>q acc. if map_of acc q = None then fs_put acc q Dir else acc"
  let ?rest = "map fs_key (path_ancestors (length p) p)"
  let ?acc = "foldr ?f ?rest d"
  note all = mkdir_recursive_Inr(2) [OF assms] and d0 = mkdir_recursive_Inr(1) [OF assms]
  from all have nofile: "\<not> (case map_of d (fs_key p) of Some (File c) \<Rightarrow> True | _ \<Rightarrow> False)"
    by simp
  from d0 have d': "d' = ?f (fs_key p) ?acc" by simp
  show ?thesis
  proof (cases "map_of ?acc (fs_key p)")
    case None
    then show ?thesis by (simp add: d' map_of_fs_put fs_key_idem)
  next
    case (Some n)
    show ?thesis
    proof (cases n)
      case (File c)
      with Some have "map_of ?acc (fs_key p) = Some (File c)" by simp
      then have "map_of d (fs_key p) = Some (File c)" by (rule mkdir_fold_files)
      with nofile show ?thesis by simp
    next
      case Dir
      with Some show ?thesis by (simp add: d')
    qed
  qed
qed

lemma extractFiles_keeps_dir:
  assumes "extractFiles mapPath files d = (eo, d')" and "map_of d k = Some Dir"
  shows "map_of d' k = Some Dir"
  using assms
proof (induction files arbitrary: d)
  case Nil
  then show ?case by simp
next
  case (Cons entry rest)
  obtain relativePath f where entry: "entry = (relativePath, f)" by (cases entry)
  let ?filepath = "path_join mapPath relativePath"
  show ?case
  proof (cases "if dir f then ensureFolderExist d ?filepath else writeFile d ?filepath (content f)")
    case (Inl e)
    with Cons.prems entry show ?thesis by (simp add: Let_def)
  next
    case (Inr d1)
    have "map_of d1 k = Some Dir"
    proof (cases "dir f")
      case True
      with Inr have "mkdir_recursive d ?filepath = Inr d1" by (simp add: ensureFolderExist_def)
      from mkdir_recursive_keeps_dir [OF this Cons.prems(2)] show ?thesis .
    next
      case False
      with Inr have "writeFile d ?filepath (content f) = Inr d1" by simp
      from writeFile_keeps_dir [OF this Cons.prems(2)] show ?thesis .
    qed
    moreover from Cons.prems(1) entry Inr have "extractFiles mapPath rest d1 = (eo, d')"
      by (simp add: Let_def)
    ultimately show ?thesis by (rule Cons.IH [rotated])
  qed
qed

lemma importMap_try_new_folder:
  assumes "mkdir_recursive (disk w) mapPath = Inr d1"
    and "importMap_try ev z relativeFolder mapPath False w = (r, w1)"
  shows "map_of (disk w1) (fs_key mapPath) = Some Dir"
proof -
  let ?files = "if relativeFolder = [] then zip_files z else zip_folder_forEach z relativeFolder"
  obtain eo d2 where ex: "extractFiles mapPath ?files d1 = (eo, d2)"
    by (cases "extractFiles mapPath ?files d1")
  from extractFiles_keeps_dir [OF ex mkdir_recursive_creates [OF assms(1)]]
  have d2: "map_of d2 (fs_key mapPath) = Some Dir" .
  from assms ex have "disk w1 = d2"
    by (cases eo; cases "loadMapInfoFromPath ev (w\<lparr>disk := d2\<rparr>) mapPath")
       (auto simp: importMap_try_def Let_def split: option.splits)
  with d2 show ?thesis by simp
qed

lemma path_normalize_not_empty: "path_normalize p \<noteq> []"
  by (auto simp: path_normalize_def Let_def)

lemma path_join_not_empty: "path_join a b \<noteq> []"
  by (simp add: path_join_def path_join_list_def Let_def path_normalize_not_empty)

lemma importMap_failure_keeps_new_folder:
  assumes "\<not> pathExistsSync (disk w) (path_join mapsFolder mapName)"
    and "mkdir_recursive (disk w) (path_join mapsFolder mapName) = Inr d1"
    and "importMap ev z zipPath relativeFolder mapName mapsFolder w = (Inl e, w')"
  shows "e = FsError ''EISDIR'' (path_join mapsFolder mapName)
         \<and> fs_lookup (disk w') (path_join mapsFolder mapName) = Some Dir"
proof -
  let ?mapPath = "path_join mapsFolder mapName"
  obtain r w1 where t: "importMap_try ev z relativeFolder ?mapPath False w = (r, w1)"
    by (cases "importMap_try ev z relativeFolder ?mapPath False w")
  from importMap_try_new_folder [OF assms(2) t]
  have key: "map_of (disk w1) (fs_key ?mapPath) = Some Dir" .
  then have dirr: "fs_lookup (disk w1) ?mapPath = Some Dir"
    by (simp add: fs_lookup_Dir_iff)
  from key have u: "unlinkSync (disk w1) ?mapPath = Inl (FsError ''EISDIR'' ?mapPath)"
    by (simp add: unlinkSync_def)
  show ?thesis
  proof (cases r)
    case (Inl err)
    with assms(1,3) t u path_join_not_empty [of mapsFolder mapName] dirr show ?thesis
      by (simp add: importMap_def Let_def)
  next
    case (Inr localMap)
    with assms(1,3) t show ?thesis by (simp add: importMap_def Let_def)
  qed
qed

text \<open>
  C1. The claim: when an import unit fails and its destination folder was created by the
  import, the folder is removed from the disk before the error is raised again; a folder
  that was there before stays. The \<open>catch\<close> block of \<open>importMap\<close> calls \<open>unlinkSync\<close> on
  the new folder, and \<open>unlinkSync\<close> does not remove a directory: it throws. On the archive
  \<open>Partial.zip\<close>, whose third entry cannot be written, the destination did not exist
  before, exists afterwards with the two files copied so far, and the error that leaves
  \<open>importMap\<close> is the one of \<open>unlinkSync\<close>. (A folder that was there before the import
  is left in place, as the claim says.)
\<close>

theorem importMap_fresh_folder_stays:
  "loadZip demo_env demo_disk ''/dl/Partial.zip'' = Inr demo_partial_zip
   \<and> \<not> pathExistsSync (disk demo_world) (demo_levels @ ''/Partial'')
   \<and> fst (importMap demo_env demo_partial_zip ''/dl/Partial.zip'' [] ''Partial''
             demo_levels demo_world)
       = Inl (FsError ''EISDIR'' (demo_levels @ ''/Partial''))
   \<and> pathExistsSync
        (disk (snd (importMap demo_env demo_partial_zip ''/dl/Partial.zip'' [] ''Partial''
                      demo_levels demo_world)))
        (demo_levels @ ''/Partial'')
   \<and> fileBytes
        (disk (snd (importMap demo_env demo_partial_zip ''/dl/Partial.zip'' [] ''Partial''
                      demo_levels demo_world)))
        (demo_levels @ ''/Partial/Easy.dat'') = Some ''easy''"
  by code_simp

section \<open>Scanning a version whose maps folder is missing\<close>

text \<open>
  C10. For every version whose resolved maps folder does not exist on the disk,
  \<open>getMaps\<close> completes its stream without an error and without any progress snapshot, the
  final one included: the subscriber receives the completion and nothing else.
\<close>

theorem getMaps_missing_folder:
  assumes "getMapsFolderPath ev version (disk w) = Inr (levelsFolder, d1)"
    and "\<not> pathExist d1 levelsFolder"
  shows "fst (getMaps ev version w) = [Complete]"
  using assms
  by (simp add: getMaps_def new_observer_def obs_complete_def)

theorem getMaps_missing_folder_witness:
  "getMapsFolderPath demo_env (Some ''2.0'') (disk demo_world)
     = Inr (''/bs/2.0/Beat Saber_Data/CustomLevels'', disk demo_world)
   \<and> \<not> pathExist (disk demo_world) ''/bs/2.0/Beat Saber_Data/CustomLevels''
   \<and> fst (getMaps demo_env (Some ''2.0'') demo_world) = [Complete]"
proof -
  have a: "getMapsFolderPath demo_env (Some ''2.0'') (disk demo_world)
     = Inr (''/bs/2.0/Beat Saber_Data/CustomLevels'', disk demo_world)"
    by code_simp
  have b: "\<not> pathExist (disk demo_world) ''/bs/2.0/Beat Saber_Data/CustomLevels''"
    by code_simp
  from getMaps_missing_folder [OF a b] a b show ?thesis by simp
qed

section \<open>The content hash is a function of the manifest and the named files\<close>

lemma hashFile_Inr_iff:
  "hashFile d filePath s = Inr r \<longleftrightarrow> (\<exists>b. fileBytes d filePath = Some b \<and> r = s @ b)"
  by (auto simp: hashFile_def fileBytes_def split: sum.splits)

lemma map_eq_map_Some_Nil: "([] = map Some bs) = (bs = [])"
  by auto

lemma hashOptional_Inr_iff:
  "hashOptional d mapPath filename s = Inr r \<longleftrightarrow>
     (\<exists>bs. map (\<lambda>f. fileBytes d (path_join mapPath f)) (optional_name filename) = map Some bs
           \<and> r = s @ concat bs)"
proof (cases filename)
  case None
  then show ?thesis by (auto simp: hashOptional_def optional_name_def)
next
  case (Some f)
  show ?thesis
  proof (cases "f = []")
    case True
    with Some show ?thesis by (auto simp: hashOptional_def optional_name_def)
  next
    case False
    have "(\<exists>bs. [fileBytes d (path_join mapPath f)] = map Some bs \<and> r = s @ concat bs)
          \<longleftrightarrow> (\<exists>b. fileBytes d (path_join mapPath f) = Some b \<and> r = s @ b)"
    proof
      assume "\<exists>bs. [fileBytes d (path_join mapPath f)] = map Some bs \<and> r = s @ concat bs"
      then obtain bs where "[fileBytes d (path_join mapPath f)] = map Some bs \<and> r = s @ concat bs" ..
      then have bs: "[fileBytes d (path_join mapPath f)] = map Some bs" "r = s @ concat bs"
        by blast+
      then obtain b where "bs = [b]" by (cases bs) auto
      with bs show "\<exists>b. fileBytes d (path_join mapPath f) = Some b \<and> r = s @ b" by auto
    next
      assume "\<exists>b. fileBytes d (path_join mapPath f) = Some b \<and> r = s @ b"
      then obtain b where "fileBytes d (path_join mapPath f) = Some b" "r = s @ b" by blast
      then have "[fileBytes d (path_join mapPath f)] = map Some [b] \<and> r = s @ concat [b]" by simp
      then show "\<exists>bs. [fileBytes d (path_join mapPath f)] = map Some bs \<and> r = s @ concat bs" ..
    qed
    with Some False show ?thesis
      by (simp add: hashOptional_def optional_name_def hashFile_Inr_iff)
  qed
qed

lemma map_Some_append_split:
  "xs @ ys = map Some bs \<longleftrightarrow> (\<exists>b1 b2. bs = b1 @ b2 \<and> xs = map Some b1 \<and> ys = map Some b2)"
  by (auto simp: append_eq_map_conv)

lemma hashDifficulties_Inr_iff:
  "hashDifficulties d mapPath diffs s = Inr r \<longleftrightarrow>
     (\<exists>bs. map (\<lambda>f. fileBytes d (path_join mapPath f))
              (concat (map (\<lambda>diff. optional_name (beatmapFilename diff)
                          @ optional_name (lightshowDataFilename diff)) diffs)) = map Some bs
           \<and> r = s @ concat bs)"
proof (induction diffs arbitrary: s)
  case Nil
  then show ?case by auto
next
  case (Cons diff diffs)
  let ?g = "\<lambda>f. fileBytes d (path_join mapPath f)"
  let ?A = "map ?g (optional_name (beatmapFilename diff))"
  let ?B = "map ?g (optional_name (lightshowDataFilename diff))"
  let ?C = "map ?g (concat (map (\<lambda>diff. optional_name (beatmapFilename diff)
                          @ optional_name (lightshowDataFilename diff)) diffs))"
  have "hashDifficulties d mapPath (diff # diffs) s = Inr r \<longleftrightarrow>
        (\<exists>s1 s2. hashOptional d mapPath (beatmapFilename diff) s = Inr s1
               \<and> hashOptional d mapPath (lightshowDataFilename diff) s1 = Inr s2
               \<and> hashDifficulties d mapPath diffs s2 = Inr r)"
    by (auto split: sum.splits)
  also have "\<dots> \<longleftrightarrow> (\<exists>b1 b2 b3. ?A = map Some b1 \<and> ?B = map Some b2 \<and> ?C = map Some b3
                         \<and> r = s @ concat b1 @ concat b2 @ concat b3)"
    unfolding hashOptional_Inr_iff Cons.IH by auto
  also have "\<dots> \<longleftrightarrow> (\<exists>bs. ?A @ ?B @ ?C = map Some bs \<and> r = s @ concat bs)"
    unfolding map_Some_append_split by fastforce
  finally show ?case by simp
qed

text \<open>
  C2. The content hash of a map folder is a function of the raw manifest text and of the
  bytes of the chart and lightshow files its variants name, taken in the order of the
  manifest (chart file, then lightshow file, variant by variant): two folders, at any two
  paths and on any two disks, whose manifest text is the same and whose named files hold
  the same bytes give the same digest, and the digest is the SHA-1 of the manifest text
  followed by those bytes in that order. A call changes nothing, so a repeated call gives
  the same digest.
\<close>

theorem computeMapHash_pure:
  assumes "parseMapInfoDat ev rawInfoString = Inr mi"
    and "map (\<lambda>f. fileBytes d1 (path_join mapPath1 f)) (referencedFiles mi)
         = map (\<lambda>f. fileBytes d2 (path_join mapPath2 f)) (referencedFiles mi)"
  shows "digest_of (computeMapHash ev d1 mapPath1 rawInfoString)
           = digest_of (computeMapHash ev d2 mapPath2 rawInfoString)
         \<and> (\<forall>bs. map (\<lambda>f. fileBytes d1 (path_join mapPath1 f)) (referencedFiles mi) = map Some bs
               \<longrightarrow> computeMapHash ev d1 mapPath1 rawInfoString
                     = Inr (sha1_hex ev (rawInfoString @ concat bs)))"
proof -
  have eq: "map (\<lambda>f. fileBytes d1 (path_join mapPath1 f))
              (concat (map (\<lambda>diff. optional_name (beatmapFilename diff)
                          @ optional_name (lightshowDataFilename diff)) (difficulties mi)))
            = map (\<lambda>f. fileBytes d2 (path_join mapPath2 f))
              (concat (map (\<lambda>diff. optional_name (beatmapFilename diff)
                          @ optional_name (lightshowDataFilename diff)) (difficulties mi)))"
    using assms(2) unfolding referencedFiles_def .
  have iff: "\<And>r. hashDifficulties d1 mapPath1 (difficulties mi) rawInfoString = Inr r
             \<longleftrightarrow> hashDifficulties d2 mapPath2 (difficulties mi) rawInfoString = Inr r"
    by (simp only: hashDifficulties_Inr_iff eq)
  have "digest_of (computeMapHash ev d1 mapPath1 rawInfoString)
           = digest_of (computeMapHash ev d2 mapPath2 rawInfoString)"
  proof (cases "hashDifficulties d1 mapPath1 (difficulties mi) rawInfoString")
    case (Inl e)
    then obtain e' where "hashDifficulties d2 mapPath2 (difficulties mi) rawInfoString = Inl e'"
      using iff by (cases "hashDifficulties d2 mapPath2 (difficulties mi) rawInfoString") auto
    with Inl assms(1) show ?thesis by (simp add: computeMapHash_def digest_of_def)
  next
    case (Inr r)
    from iff [of r] Inr have "hashDifficulties d2 mapPath2 (difficulties mi) rawInfoString = Inr r"
      by blast
    with Inr assms(1) show ?thesis by (simp add: computeMapHash_def digest_of_def)
  qed
  moreover have "\<forall>bs. map (\<lambda>f. fileBytes d1 (path_join mapPath1 f)) (referencedFiles mi) = map Some bs
               \<longrightarrow> computeMapHash ev d1 mapPath1 rawInfoString
                     = Inr (sha1_hex ev (rawInfoString @ concat bs))"
  proof (intro allI impI)
    fix bs assume "map (\<lambda>f. fileBytes d1 (path_join mapPath1 f)) (referencedFiles mi) = map Some bs"
    then have "hashDifficulties d1 mapPath1 (difficulties mi) rawInfoString = Inr (rawInfoString @ concat bs)"
      unfolding hashDifficulties_Inr_iff referencedFiles_def by blast
    with assms(1) show "computeMapHash ev d1 mapPath1 rawInfoString
                     = Inr (sha1_hex ev (rawInfoString @ concat bs))"
      by (simp add: computeMapHash_def)
  qed
  ultimately show ?thesis by blast
qed

theorem computeMapHash_pure_witness:
  "parseMapInfoDat demo_env ''{info}'' = Inr demo_manifest
   \<and> map (\<lambda>f. fileBytes demo_installed_disk (path_join (demo_levels @ ''/A'') f)) (referencedFiles demo_manifest)
       = map (\<lambda>f. fileBytes (disk (snd (importMaps demo_env [''/dl/MyMap.zip''] (Some ''1.0'') demo_world)))
                     (path_join (demo_levels @ ''/MyMap'') f)) (referencedFiles demo_manifest)
   \<and> map (\<lambda>f. fileBytes demo_installed_disk (path_join (demo_levels @ ''/A'') f)) (referencedFiles demo_manifest)
       = map Some [''easy'', ''hard'', ''lights'']
   \<and> digest_of (computeMapHash demo_env demo_installed_disk (demo_levels @ ''/A'') ''{info}'')
       = digest_of (computeMapHash demo_env
            (disk (snd (importMaps demo_env [''/dl/MyMap.zip''] (Some ''1.0'') demo_world)))
            (demo_levels @ ''/MyMap'') ''{info}'')
   \<and> computeMapHash demo_env demo_installed_disk (demo_levels @ ''/A'') ''{info}''
       = Inr (sha1_hex demo_env (''{info}'' @ concat [''easy'', ''hard'', ''lights'']))"
proof -
  have a: "parseMapInfoDat demo_env ''{info}'' = Inr demo_manifest" by code_simp
  have b: "map (\<lambda>f. fileBytes demo_installed_disk (path_join (demo_levels @ ''/A'') f)) (referencedFiles demo_manifest)
       = map (\<lambda>f. fileBytes (disk (snd (importMaps demo_env [''/dl/MyMap.zip''] (Some ''1.0'') demo_world)))
                     (path_join (demo_levels @ ''/MyMap'') f)) (referencedFiles demo_manifest)"
    by code_simp
  have c: "map (\<lambda>f. fileBytes demo_installed_disk (path_join (demo_levels @ ''/A'') f)) (referencedFiles demo_manifest)
       = map Some [''easy'', ''hard'', ''lights'']"
    by code_simp
  from computeMapHash_pure [OF a b] a b c show ?thesis by blast
qed

section \<open>Observers, counters and the import loops\<close>

lemma snapshots_append: "snapshots (es @ fs) = snapshots es @ snapshots fs"
  by (induction es rule: snapshots.induct) simp_all

lemma closed_obs_next: "closed (obs_next ob v) = closed ob"
  by (simp add: obs_next_def)

lemma events_obs_next: "\<not> closed ob \<Longrightarrow> events (obs_next ob v) = events ob @ [Next v]"
  by (simp add: obs_next_def)

lemma snapshots_obs_next:
  "\<not> closed ob \<Longrightarrow> snapshots (events (obs_next ob v)) = snapshots (events ob) @ [v]"
  by (simp add: events_obs_next snapshots_append)

lemma snapshots_obs_complete: "snapshots (events (obs_complete ob)) = snapshots (events ob)"
  by (simp add: obs_complete_def snapshots_append)

lemma snapshots_obs_error: "snapshots (events (obs_error ob e)) = snapshots (events ob)"
  by (simp add: obs_error_def snapshots_append)

lemma counter_ascending_next:
  assumes "counter_ascending f progress ob" and "f progress \<le> f progress'"
  shows "counter_ascending f progress' (obs_next ob progress')"
proof -
  from assms(1) have op: "\<not> closed ob"
    and ev: "events ob = map Next (snapshots (events ob))"
    and so: "sorted (map f (snapshots (events ob)))"
    and le: "\<forall>s \<in> set (snapshots (events ob)). f s \<le> f progress"
    by (simp_all add: counter_ascending_def)
  have sn: "snapshots (events (obs_next ob progress')) = snapshots (events ob) @ [progress']"
    using op by (rule snapshots_obs_next)
  have "events (obs_next ob progress') = events ob @ [Next progress']"
    using op by (rule events_obs_next)
  also have "\<dots> = map Next (snapshots (events ob)) @ [Next progress']"
    using ev by simp
  finally have "events (obs_next ob progress')
                  = map Next (snapshots (events ob)) @ [Next progress']" .
  then have ev': "events (obs_next ob progress')
                      = map Next (snapshots (events (obs_next ob progress')))"
    unfolding sn by simp
  from le assms(2) have le': "\<forall>s \<in> set (snapshots (events ob)). f s \<le> f progress'"
    by (auto intro: order_trans)
  with so have so': "sorted (map f (snapshots (events ob) @ [progress']))"
    by (simp add: sorted_append)
  show ?thesis
    unfolding counter_ascending_def
  proof (intro conjI)
    show "\<not> closed (obs_next ob progress')"
      using op by (simp add: closed_obs_next)
    show "events (obs_next ob progress') = map Next (snapshots (events (obs_next ob progress')))"
      by (rule ev')
    show "sorted (map f (snapshots (events (obs_next ob progress'))))"
      unfolding sn by (rule so')
    show "\<forall>s \<in> set (snapshots (events (obs_next ob progress'))). f s \<le> f progress'"
      unfolding sn using le' by simp
  qed
qed

lemma counter_ascending_new: "counter_ascending f progress new_observer"
  by (simp add: counter_ascending_def new_observer_def)

lemma counter_ascending_sorted:
  "counter_ascending f progress ob \<Longrightarrow> sorted (map f (snapshots (events ob)))"
  by (simp add: counter_ascending_def)

subsection \<open>The planning loop\<close>

lemma countMaps_total:
  "snd (countMaps ev d zipPaths (zips, n))
     = n + sum_list (map (\<lambda>zipPath. length (matchedManifests ev d zipPath)) zipPaths)"
  by (induction zipPaths arbitrary: zips n)
     (auto simp: matchedManifests_def Let_def split: sum.splits)

lemma countMaps_paths:
  "map zip_path (fst (countMaps ev d zipPaths (zips, n)))
     = map zip_path zips @ filter (\<lambda>zipPath. matchedManifests ev d zipPath \<noteq> []) zipPaths"
  by (induction zipPaths arbitrary: zips n)
     (auto simp: matchedManifests_def Let_def split: sum.splits)

lemma countMaps_zero_iff:
  "snd (countMaps ev d zipPaths ([], 0)) = 0
     \<longleftrightarrow> (\<forall>zipPath \<in> set zipPaths. matchedManifests ev d zipPath = [])"
  by (simp add: countMaps_total sum_list_eq_0_iff)

subsection \<open>The import loops keep the counters ascending\<close>

lemma importFolder_step:
  assumes "importFolder ev z zipPath mapsFolder relativeFolder (w, progress, ob) = (w', progress', ob')"
  shows "total progress' = total progress \<and> current progress' = current progress + 1
         \<and> ob' = obs_next ob progress'"
  using assms by (auto simp: importFolder_def Let_def split: prod.splits sum.splits)

lemma importFolders_ascending:
  assumes "importFolders ev z zipPath mapsFolder relativeFolders (w, progress, ob) = (w', progress', ob')"
    and "counter_ascending total progress ob" and "counter_ascending current progress ob"
  shows "counter_ascending total progress' ob' \<and> counter_ascending current progress' ob'"
  using assms
proof (induction relativeFolders arbitrary: w progress ob)
  case Nil
  then show ?case by simp
next
  case (Cons relativeFolder rest)
  obtain w1 p1 o1 where st: "importFolder ev z zipPath mapsFolder relativeFolder (w, progress, ob) = (w1, p1, o1)"
    by (metis prod_cases3)
  from importFolder_step [OF st] Cons.prems(2,3)
  have "counter_ascending total p1 o1" "counter_ascending current p1 o1"
    by (simp_all add: counter_ascending_next)
  with Cons.IH [of w1 p1 o1] Cons.prems(1) st show ?case by simp
qed

lemma importZip_ascending:
  assumes "importZip ev mapsFolder zipInfo (w, progress, ob) = (w', progress', ob')"
    and "counter_ascending total progress ob" and "counter_ascending current progress ob"
  shows "counter_ascending total progress' ob' \<and> counter_ascending current progress' ob'"
proof (cases "loadZip ev (disk w) (zip_path zipInfo)")
  case (Inl e)
  with assms show ?thesis
    by (auto simp: importZip_def Let_def counter_ascending_next)
next
  case (Inr z)
  show ?thesis
  proof (cases "single zipInfo")
    case True
    with Inr assms show ?thesis
      by (auto simp: importZip_def Let_def counter_ascending_next split: prod.splits sum.splits)
  next
    case False
    with Inr assms(1) have "importFolders ev z (zip_path zipInfo) mapsFolder (folders zipInfo) (w, progress, ob)
         = (w', progress', ob')"
      by (simp add: importZip_def)
    from importFolders_ascending [OF this assms(2,3)] show ?thesis .
  qed
qed

lemma importZips_ascending:
  assumes "importZips ev mapsFolder zips (w, progress, ob) = (w', progress', ob')"
    and "counter_ascending total progress ob" and "counter_ascending current progress ob"
  shows "counter_ascending total progress' ob' \<and> counter_ascending current progress' ob'"
  using assms
proof (induction zips arbitrary: w progress ob)
  case Nil
  then show ?case by simp
next
  case (Cons zipInfo rest)
  obtain w1 p1 o1 where st: "importZip ev mapsFolder zipInfo (w, progress, ob) = (w1, p1, o1)"
    by (metis prod_cases3)
  from importZip_ascending [OF st Cons.prems(2,3)] Cons.IH [of w1 p1 o1] Cons.prems(1) st
  show ?case by simp
qed


lemma counter_ascending_events:
  "counter_ascending f progress ob \<Longrightarrow> \<not> closed ob \<and> events ob = map Next (snapshots (events ob))"
  by (simp add: counter_ascending_def)

lemma handleZipPaths_no_manifest:
  assumes "\<forall>zipPath \<in> set zipPaths. matchedManifests ev (disk w) zipPath = []"
  shows "handleZipPaths ev zipPaths ob version w
           = (Inl (CustomError NO_INFO_DAT_MESSAGE ''invalid-zip''), w, ob)"
proof -
  from assms have "snd (countMaps ev (disk w) zipPaths ([], 0)) = 0"
    by (simp only: countMaps_zero_iff)
  then show ?thesis
    by (cases "countMaps ev (disk w) zipPaths ([], 0)") (simp add: handleZipPaths_def)
qed

lemma handleZipPaths_some_manifest:
  assumes "\<exists>zipPath \<in> set zipPaths. matchedManifests ev (disk w) zipPath \<noteq> []"
  shows "case handleZipPaths ev zipPaths new_observer version w of
           (Inl e, w', ob') \<Rightarrow> getMapsFolderPath ev version (disk w) = Inl e \<and> ob' = new_observer
         | (Inr u, w', ob') \<Rightarrow> (\<exists>x. getMapsFolderPath ev version (disk w) = Inr x)
                \<and> \<not> closed ob' \<and> events ob' = map Next (snapshots (events ob'))"
proof -
  obtain zips n where cm: "countMaps ev (disk w) zipPaths ([], 0) = (zips, n)"
    by (cases "countMaps ev (disk w) zipPaths ([], 0)")
  have "snd (countMaps ev (disk w) zipPaths ([], 0)) \<noteq> 0"
    using assms by (simp only: countMaps_zero_iff) blast
  with cm have n: "n \<noteq> 0" by simp
  show ?thesis
  proof (cases "getMapsFolderPath ev version (disk w)")
    case (Inl e)
    with cm n show ?thesis by (simp add: handleZipPaths_def)
  next
    case (Inr x)
    obtain mapsFolder d1 where x: "x = (mapsFolder, d1)" by (cases x)
    let ?progress = "\<lparr>total = n, current = 0, data = None\<rparr> :: BsmLocalMap Progression"
    obtain w' p' ob' where iz: "importZips ev mapsFolder zips
        (w\<lparr>disk := d1\<rparr>, ?progress, obs_next new_observer ?progress) = (w', p', ob')"
      by (metis prod_cases3)
    have start: "\<And>f. counter_ascending f ?progress (obs_next new_observer ?progress)"
      by (rule counter_ascending_next [OF counter_ascending_new [of _ ?progress]]) simp
    have "counter_ascending total ?progress (obs_next new_observer ?progress)"
         "counter_ascending current ?progress (obs_next new_observer ?progress)"
      by (rule start)+
    from importZips_ascending [OF iz this] have "counter_ascending total p' ob'" by simp
    from counter_ascending_events [OF this] cm n Inr x iz show ?thesis
      by (simp add: handleZipPaths_def)
  qed
qed

lemma getMapsFolderPath_error:
  "getMapsFolderPath ev version d = Inl e \<Longrightarrow> \<exists>c p. e = FsError c p"
  by (auto simp: getMapsFolderPath_def ensureFolderExist_def mkdir_recursive_def Let_def
           split: option.splits if_splits sum.splits)

text \<open>
  C5. \<open>importMaps\<close> ends with the error "no Info.dat in any of the zip files"
  (\<open>invalid-zip\<close>) exactly when no archive of the whole input yields a matched manifest
  entry. When at least one archive holds a matched manifest (and the maps folder of the
  version resolves), the call succeeds: the subscriber receives snapshots and then the
  completion; the archives without a manifest are left out of the plan and do not fail the
  call.
\<close>

theorem importMaps_fails_iff_no_manifest:
  "(Error (CustomError NO_INFO_DAT_MESSAGE ''invalid-zip'')
        \<in> set (fst (importMaps ev zipPaths version w))
      \<longleftrightarrow> (\<forall>zipPath \<in> set zipPaths. matchedManifests ev (disk w) zipPath = []))
   \<and> ((\<exists>zipPath \<in> set zipPaths. matchedManifests ev (disk w) zipPath \<noteq> [])
        \<and> (\<exists>x. getMapsFolderPath ev version (disk w) = Inr x)
      \<longrightarrow> fst (importMaps ev zipPaths version w)
            = map Next (snapshots (fst (importMaps ev zipPaths version w))) @ [Complete])
   \<and> map zip_path (fst (countMaps ev (disk w) zipPaths ([], 0)))
       = filter (\<lambda>zipPath. matchedManifests ev (disk w) zipPath \<noteq> []) zipPaths"
proof (cases "\<forall>zipPath \<in> set zipPaths. matchedManifests ev (disk w) zipPath = []")
  case True
  from handleZipPaths_no_manifest [OF True]
  have "fst (importMaps ev zipPaths version w)
          = [Error (CustomError NO_INFO_DAT_MESSAGE ''invalid-zip'')]"
    by (simp add: importMaps_def new_observer_def obs_error_def obs_complete_def)
  with True show ?thesis by (simp add: countMaps_paths)
next
  case False
  then have ex: "\<exists>zipPath \<in> set zipPaths. matchedManifests ev (disk w) zipPath \<noteq> []" by blast
  obtain r w' ob' where h: "handleZipPaths ev zipPaths new_observer version w = (r, w', ob')"
    by (metis prod_cases3)
  show ?thesis
  proof (cases r)
    case (Inl e)
    with handleZipPaths_some_manifest [OF ex, of version] h
    have g: "getMapsFolderPath ev version (disk w) = Inl e" and o: "ob' = new_observer"
      by simp_all
    from getMapsFolderPath_error [OF g] obtain c p where e: "e = FsError c p" by blast
    from h Inl o e have "fst (importMaps ev zipPaths version w) = [Error (FsError c p)]"
      by (simp add: importMaps_def new_observer_def obs_error_def obs_complete_def)
    with False g show ?thesis by (simp add: countMaps_paths)
  next
    case (Inr u)
    with handleZipPaths_some_manifest [OF ex, of version] h
    have o: "\<not> closed ob'" "events ob' = map Next (snapshots (events ob'))"
      by simp_all
    from h Inr o(1) have ev: "fst (importMaps ev zipPaths version w) = events ob' @ [Complete]"
      by (simp add: importMaps_def obs_complete_def)
    have "snapshots (events ob' @ [Complete]) = snapshots (events ob')"
      by (simp add: snapshots_append)
    with ev o(2) have shape: "fst (importMaps ev zipPaths version w)
            = map Next (snapshots (fst (importMaps ev zipPaths version w))) @ [Complete]"
      by simp
    have "Error (CustomError NO_INFO_DAT_MESSAGE ''invalid-zip'')
            \<notin> set (map Next (snapshots (fst (importMaps ev zipPaths version w))) @ [Complete])"
      by auto
    with shape have "Error (CustomError NO_INFO_DAT_MESSAGE ''invalid-zip'')
            \<notin> set (fst (importMaps ev zipPaths version w))"
      by simp
    with False shape show ?thesis by (simp add: countMaps_paths)
  qed
qed

theorem importMaps_fails_iff_no_manifest_witness:
  "(Error (CustomError NO_INFO_DAT_MESSAGE ''invalid-zip'')
        \<in> set (fst (importMaps demo_env [''/dl/NoMap.zip'', ''/dl/missing.zip''] (Some ''1.0'') demo_world)))
   \<and> matchedManifests demo_env (disk demo_world) ''/dl/NoMap.zip'' = []
   \<and> matchedManifests demo_env (disk demo_world) ''/dl/missing.zip'' = []
   \<and> matchedManifests demo_env (disk demo_world) ''/dl/MyMap.zip'' \<noteq> []
   \<and> getMapsFolderPath demo_env (Some ''1.0'') (disk demo_world) = Inr (demo_levels, disk demo_world)
   \<and> Error (CustomError NO_INFO_DAT_MESSAGE ''invalid-zip'')
        \<notin> set (fst (importMaps demo_env [''/dl/NoMap.zip'', ''/dl/MyMap.zip''] (Some ''1.0'') demo_world))
   \<and> fst (importMaps demo_env [''/dl/NoMap.zip'', ''/dl/MyMap.zip''] (Some ''1.0'') demo_world)
       = map Next (snapshots (fst (importMaps demo_env [''/dl/NoMap.zip'', ''/dl/MyMap.zip'']
                                     (Some ''1.0'') demo_world))) @ [Complete]
   \<and> length (snapshots (fst (importMaps demo_env [''/dl/NoMap.zip'', ''/dl/MyMap.zip'']
                                     (Some ''1.0'') demo_world))) = 2
   \<and> map zip_path (fst (countMaps demo_env (disk demo_world) [''/dl/NoMap.zip'', ''/dl/MyMap.zip''] ([], 0)))
       = [''/dl/MyMap.zip'']"
proof -
  have a: "matchedManifests demo_env (disk demo_world) ''/dl/NoMap.zip'' = []" by code_simp
  have b: "matchedManifests demo_env (disk demo_world) ''/dl/missing.zip'' = []" by code_simp
  have c: "matchedManifests demo_env (disk demo_world) ''/dl/MyMap.zip'' \<noteq> []" by code_simp
  have d: "getMapsFolderPath demo_env (Some ''1.0'') (disk demo_world) = Inr (demo_levels, disk demo_world)"
    by code_simp
  have e: "length (snapshots (fst (importMaps demo_env [''/dl/NoMap.zip'', ''/dl/MyMap.zip'']
                                     (Some ''1.0'') demo_world))) = 2"
    by code_simp
  note t1 = importMaps_fails_iff_no_manifest
    [of demo_env "[''/dl/NoMap.zip'', ''/dl/missing.zip'']" "Some ''1.0''" demo_world]
  note t2 = importMaps_fails_iff_no_manifest
    [of demo_env "[''/dl/NoMap.zip'', ''/dl/MyMap.zip'']" "Some ''1.0''" demo_world]
  from t1 a b have 1: "Error (CustomError NO_INFO_DAT_MESSAGE ''invalid-zip'')
        \<in> set (fst (importMaps demo_env [''/dl/NoMap.zip'', ''/dl/missing.zip''] (Some ''1.0'') demo_world))"
    by simp
  from t2 a c d have 2: "Error (CustomError NO_INFO_DAT_MESSAGE ''invalid-zip'')
        \<notin> set (fst (importMaps demo_env [''/dl/NoMap.zip'', ''/dl/MyMap.zip''] (Some ''1.0'') demo_world))"
    and 3: "fst (importMaps demo_env [''/dl/NoMap.zip'', ''/dl/MyMap.zip''] (Some ''1.0'') demo_world)
       = map Next (snapshots (fst (importMaps demo_env [''/dl/NoMap.zip'', ''/dl/MyMap.zip'']
                                     (Some ''1.0'') demo_world))) @ [Complete]"
    and 4: "map zip_path (fst (countMaps demo_env (disk demo_world) [''/dl/NoMap.zip'', ''/dl/MyMap.zip''] ([], 0)))
       = [''/dl/MyMap.zip'']"
    by simp_all
  from 1 2 3 4 a b c d e show ?thesis by blast
qed

section \<open>The counters of every pipeline are ascending\<close>

lemma loadChunkItem_ascending:
  assumes "loadChunkItem ev mapPath (w, progression, ob) = ((w', progression', ob'), r)"
    and "counter_ascending maps_total progression ob" and "counter_ascending loaded progression ob"
  shows "counter_ascending maps_total progression' ob' \<and> counter_ascending loaded progression' ob'"
  using assms
  by (auto simp: loadChunkItem_def Let_def counter_ascending_next split: sum.splits option.splits)

lemma loadChunk_ascending:
  assumes "loadChunk ev mapPaths (w, progression, ob) = ((w', progression', ob'), rs)"
    and "counter_ascending maps_total progression ob" and "counter_ascending loaded progression ob"
  shows "counter_ascending maps_total progression' ob' \<and> counter_ascending loaded progression' ob'"
  using assms
proof (induction mapPaths arbitrary: w progression ob rs)
  case Nil
  then show ?case by simp
next
  case (Cons mapPath rest)
  obtain w1 p1 o1 r where st: "loadChunkItem ev mapPath (w, progression, ob) = ((w1, p1, o1), r)"
    by (metis prod_cases3 surj_pair)
  from Cons.prems(1) st obtain rs2
    where st2: "loadChunk ev rest (w1, p1, o1) = ((w', progression', ob'), rs2)"
    by (auto split: prod.splits)
  from loadChunkItem_ascending [OF st Cons.prems(2,3)]
  have "counter_ascending maps_total p1 o1" "counter_ascending loaded p1 o1" by simp_all
  from Cons.IH [OF st2 this] show ?case .
qed

lemma loadChunks_ascending:
  assumes "loadChunks ev chunks (w, progression, ob) acc = ((w', progression', ob'), rs)"
    and "counter_ascending maps_total progression ob" and "counter_ascending loaded progression ob"
  shows "counter_ascending maps_total progression' ob' \<and> counter_ascending loaded progression' ob'"
  using assms
proof (induction chunks arbitrary: w progression ob acc)
  case Nil
  then show ?case by simp
next
  case (Cons chunk rest)
  obtain w1 p1 o1 rs1 where st: "loadChunk ev chunk (w, progression, ob) = ((w1, p1, o1), rs1)"
    by (metis prod_cases3 surj_pair)
  from loadChunk_ascending [OF st Cons.prems(2,3)]
  have a: "counter_ascending maps_total p1 o1" "counter_ascending loaded p1 o1" by simp_all
  from Cons.prems(1) st have "loadChunks ev rest (w1, p1, o1) (acc @ rs1) = ((w', progression', ob'), rs)"
    by simp
  from Cons.IH [OF this a] show ?case .
qed

lemma getMaps_ascending:
  "sorted (map maps_total (snapshots (fst (getMaps ev version w))))
   \<and> sorted (map loaded (snapshots (fst (getMaps ev version w))))"
proof (cases "getMapsFolderPath ev version (disk w)")
  case (Inl e)
  then show ?thesis
    by (simp add: getMaps_def snapshots_obs_error new_observer_def)
next
  case (Inr x)
  obtain levelsFolder d1 where x: "x = (levelsFolder, d1)" by (cases x)
  show ?thesis
  proof (cases "pathExist d1 levelsFolder")
    case False
    with Inr x show ?thesis
      by (simp add: getMaps_def snapshots_obs_complete new_observer_def)
  next
    case True
    let ?p1 = "\<lparr>maps_total = length (getFoldersInFolder d1 levelsFolder), loaded = 0, maps = []\<rparr>"
    obtain w2 p2 o2 loadedMaps where lc:
      "loadChunks ev (splitIntoChunk (getFoldersInFolder d1 levelsFolder) 50)
         (w\<lparr>disk := d1\<rparr>, ?p1, new_observer) [] = ((w2, p2, o2), loadedMaps)"
      by (metis prod_cases3 surj_pair)
    from loadChunks_ascending [OF lc counter_ascending_new counter_ascending_new]
    have a: "counter_ascending maps_total p2 o2" "counter_ascending loaded p2 o2" by simp_all
    let ?p3 = "p2\<lparr>maps := loadedMaps\<rparr>"
    have "counter_ascending maps_total ?p3 (obs_next o2 ?p3)"
      by (rule counter_ascending_next [OF a(1)]) simp
    moreover have "counter_ascending loaded ?p3 (obs_next o2 ?p3)"
      by (rule counter_ascending_next [OF a(2)]) simp
    moreover have "fst (getMaps ev version w) = events (obs_complete (obs_next o2 ?p3))"
      using Inr x True lc by (simp add: getMaps_def Let_def)
    ultimately show ?thesis
      by (simp add: snapshots_obs_complete counter_ascending_sorted)
  qed
qed

lemma deleteMaps_loop_ascending:
  assumes "deleteMaps_loop mapPaths (w, progress, ob) = (w', progress', ob')"
    and "counter_ascending delete_total progress ob" and "counter_ascending deleted progress ob"
  shows "counter_ascending delete_total progress' ob' \<and> counter_ascending deleted progress' ob'"
  using assms
proof (induction mapPaths arbitrary: w progress ob)
  case Nil
  then show ?case by simp
next
  case (Cons mapPath rest)
  show ?case
  proof (cases "pathExistsSync (disk w) mapPath")
    case True
    let ?p1 = "progress\<lparr>deleted := deleted progress + 1\<rparr>"
    have "counter_ascending delete_total ?p1 (obs_next ob ?p1)"
      by (rule counter_ascending_next [OF Cons.prems(2)]) simp
    moreover have "counter_ascending deleted ?p1 (obs_next ob ?p1)"
      by (rule counter_ascending_next [OF Cons.prems(3)]) simp
    ultimately show ?thesis
      using Cons.IH Cons.prems(1) True by (simp add: Let_def)
  next
    case False
    have "counter_ascending delete_total progress (obs_next ob progress)"
      by (rule counter_ascending_next [OF Cons.prems(2)]) simp
    moreover have "counter_ascending deleted progress (obs_next ob progress)"
      by (rule counter_ascending_next [OF Cons.prems(3)]) simp
    ultimately show ?thesis
      using Cons.IH Cons.prems(1) False by simp
  qed
qed

lemma deleteMaps_ascending:
  "sorted (map delete_total (snapshots (fst (deleteMaps ms w))))
   \<and> sorted (map deleted (snapshots (fst (deleteMaps ms w))))"
proof -
  let ?p = "\<lparr>delete_total = length ms, deleted = 0\<rparr>"
  obtain w' p' ob' where l: "deleteMaps_loop (map path ms) (w, ?p, new_observer) = (w', p', ob')"
    by (metis prod_cases3)
  from deleteMaps_loop_ascending [OF l counter_ascending_new counter_ascending_new]
  have "counter_ascending delete_total p' ob'" "counter_ascending deleted p' ob'" by simp_all
  with l show ?thesis
    by (simp add: deleteMaps_def snapshots_obs_complete counter_ascending_sorted)
qed

lemma deleteMapsFromHashs_step_shape:
  assumes "deleteMapsFromHashs_step ev hashs mapPath (w, progress, ob) = (w', progress', ob')"
  shows "ob' = obs_next ob progress' \<and> total progress' = total progress
         \<and> (if hash_requested ev hashs w mapPath
             then w' = remove_map w mapPath \<and> current progress' = current progress + 1
             else w' = w \<and> progress' = progress)"
  using assms
  by (auto simp: deleteMapsFromHashs_step_def hash_requested_def remove_map_def
                 deleteMapInfoFromDirname_def Let_def
           split: sum.splits option.splits if_splits)

lemma deleteMapsFromHashs_step_ascending:
  assumes "deleteMapsFromHashs_step ev hashs mapPath (w, progress, ob) = (w', progress', ob')"
    and "counter_ascending total progress ob" and "counter_ascending current progress ob"
  shows "counter_ascending total progress' ob' \<and> counter_ascending current progress' ob'"
proof -
  from deleteMapsFromHashs_step_shape [OF assms(1)]
  have s: "ob' = obs_next ob progress'" "total progress \<le> total progress'"
    "current progress \<le> current progress'"
    by (auto split: if_splits)
  show ?thesis
    unfolding s(1) using assms(2,3) s(2,3) by (simp add: counter_ascending_next)
qed

lemma deleteMapsFromHashs_loop_ascending:
  assumes "deleteMapsFromHashs_loop ev hashs mapPaths (w, progress, ob) = (w', progress', ob')"
    and "counter_ascending total progress ob" and "counter_ascending current progress ob"
  shows "counter_ascending total progress' ob' \<and> counter_ascending current progress' ob'"
  using assms
proof (induction mapPaths arbitrary: w progress ob)
  case Nil
  then show ?case by simp
next
  case (Cons mapPath rest)
  obtain w1 p1 o1 where st: "deleteMapsFromHashs_step ev hashs mapPath (w, progress, ob) = (w1, p1, o1)"
    by (metis prod_cases3)
  from deleteMapsFromHashs_step_ascending [OF st Cons.prems(2,3)] Cons.IH [of w1 p1 o1]
    Cons.prems(1) st
  show ?case by simp
qed

lemma getMapsFolderPath_version:
  "getMapsFolderPath ev (Some v) d = Inr (path_join (getVersionPath ev v) RELATIVE_MAPS_FOLDER, d)"
  by (simp add: getMapsFolderPath_def)

lemma deleteMapsFromHashs_ascending:
  "sorted (map total (snapshots (fst (deleteMapsFromHashs ev version hashs w))))
   \<and> sorted (map current (snapshots (fst (deleteMapsFromHashs ev version hashs w))))"
proof -
  let ?p = "\<lparr>total = length hashs, current = 0, data = None\<rparr> :: unit Progression"
  let ?ps = "getFoldersInFolder (disk w) (path_join (getVersionPath ev version) RELATIVE_MAPS_FOLDER)"
  obtain w' p' ob' where l:
    "deleteMapsFromHashs_loop ev hashs ?ps (w, ?p, new_observer) = (w', p', ob')"
    by (metis prod_cases3)
  from deleteMapsFromHashs_loop_ascending [OF l counter_ascending_new counter_ascending_new]
  have "counter_ascending total p' ob'" "counter_ascending current p' ob'" by simp_all
  with l show ?thesis
    by (simp add: deleteMapsFromHashs_def getMapsFolderPath_version snapshots_obs_complete
                  counter_ascending_sorted)
qed

lemma importMaps_ascending:
  "sorted (map total (snapshots (fst (importMaps ev zipPaths version w))))
   \<and> sorted (map current (snapshots (fst (importMaps ev zipPaths version w))))"
proof -
  obtain zips n where cm: "countMaps ev (disk w) zipPaths ([], 0) = (zips, n)"
    by (cases "countMaps ev (disk w) zipPaths ([], 0)")
  show ?thesis
  proof (cases "n = 0")
    case True
    with cm show ?thesis
      by (simp add: importMaps_def handleZipPaths_def snapshots_obs_complete snapshots_obs_error
                    new_observer_def)
  next
    case False
    show ?thesis
    proof (cases "getMapsFolderPath ev version (disk w)")
      case (Inl e)
      with cm False show ?thesis
        by (simp add: importMaps_def handleZipPaths_def snapshots_obs_complete snapshots_obs_error
                      new_observer_def)
    next
      case (Inr x)
      obtain mapsFolder d1 where x: "x = (mapsFolder, d1)" by (cases x)
      let ?progress = "\<lparr>total = n, current = 0, data = None\<rparr> :: BsmLocalMap Progression"
      obtain w' p' ob' where iz: "importZips ev mapsFolder zips
          (w\<lparr>disk := d1\<rparr>, ?progress, obs_next new_observer ?progress) = (w', p', ob')"
        by (metis prod_cases3)
      have start: "\<And>f. counter_ascending f ?progress (obs_next new_observer ?progress)"
        by (rule counter_ascending_next [OF counter_ascending_new [of _ ?progress]]) simp
      from importZips_ascending [OF iz start start]
      have "counter_ascending total p' ob'" "counter_ascending current p' ob'" by simp_all
      moreover have "fst (importMaps ev zipPaths version w) = events (obs_complete ob')"
        using cm False Inr x iz by (simp add: importMaps_def handleZipPaths_def)
      ultimately show ?thesis
        by (simp add: snapshots_obs_complete counter_ascending_sorted)
    qed
  qed
qed

text \<open>
  C9. In a run of any pipeline (the scan \<open>getMaps\<close>, the import \<open>importMaps\<close>, the
  deletion by list \<open>deleteMaps\<close>, the deletion by hash \<open>deleteMapsFromHashs\<close>) the
  counters of the progress state, the total and the loaded, deleted or current count, never
  decrease along the sequence of snapshots the subscriber receives.
\<close>

theorem progress_counters_ascending:
  "sorted (map maps_total (snapshots (fst (getMaps ev version w))))
   \<and> sorted (map loaded (snapshots (fst (getMaps ev version w))))
   \<and> sorted (map delete_total (snapshots (fst (deleteMaps ms w))))
   \<and> sorted (map deleted (snapshots (fst (deleteMaps ms w))))
   \<and> sorted (map total (snapshots (fst (deleteMapsFromHashs ev v hashs w))))
   \<and> sorted (map current (snapshots (fst (deleteMapsFromHashs ev v hashs w))))
   \<and> sorted (map total (snapshots (fst (importMaps ev zipPaths version w))))
   \<and> sorted (map current (snapshots (fst (importMaps ev zipPaths version w))))"
  using getMaps_ascending [of ev version w] deleteMaps_ascending [of ms w]
    deleteMapsFromHashs_ascending [of ev v hashs w] importMaps_ascending [of ev zipPaths version w]
  by simp

section \<open>A failing unit of an archive with several maps\<close>

lemma importFolders_append:
  "importFolders ev z zipPath mapsFolder (xs @ ys) st
     = importFolders ev z zipPath mapsFolder ys (importFolders ev z zipPath mapsFolder xs st)"
  by (induction xs arbitrary: st) simp_all

lemma importFolders_counts:
  assumes "importFolders ev z zipPath mapsFolder relativeFolders (w, progress, ob) = (w', progress', ob')"
    and "\<not> closed ob"
  shows "\<not> closed ob' \<and> total progress' = total progress
         \<and> current progress' = current progress + length relativeFolders
         \<and> length (snapshots (events ob')) = length (snapshots (events ob)) + length relativeFolders"
  using assms
proof (induction relativeFolders arbitrary: w progress ob)
  case Nil
  then show ?case by simp
next
  case (Cons relativeFolder rest)
  obtain w1 p1 o1 where st: "importFolder ev z zipPath mapsFolder relativeFolder (w, progress, ob) = (w1, p1, o1)"
    by (metis prod_cases3)
  from importFolder_step [OF st] Cons.prems(2)
  have s: "\<not> closed o1" "total p1 = total progress" "current p1 = current progress + 1"
    "length (snapshots (events o1)) = length (snapshots (events ob)) + 1"
    by (simp_all add: closed_obs_next snapshots_obs_next)
  from Cons.prems(1) st have "importFolders ev z zipPath mapsFolder rest (w1, p1, o1) = (w', progress', ob')"
    by simp
  from Cons.IH [OF this s(1)] s show ?case by simp
qed

lemma importFolder_failure:
  assumes "isl (fst (importMap ev z zipPath relativeFolder (path_basename relativeFolder) mapsFolder w))"
  shows "importFolder ev z zipPath mapsFolder relativeFolder (w, progress, ob)
     = (snd (importMap ev z zipPath relativeFolder (path_basename relativeFolder) mapsFolder w),
        \<lparr>total = total progress, current = current progress + 1, data = None\<rparr>,
        obs_next ob \<lparr>total = total progress, current = current progress + 1, data = None\<rparr>)"
proof -
  obtain r w1 where im: "importMap ev z zipPath relativeFolder (path_basename relativeFolder) mapsFolder w = (r, w1)"
    by (cases "importMap ev z zipPath relativeFolder (path_basename relativeFolder) mapsFolder w")
  with assms obtain e where r: "r = Inl e" by (cases r) auto
  from im r show ?thesis
    by (cases progress) (simp add: importFolder_def Let_def)
qed

text \<open>
  C7. In the import of an archive that holds several maps, a unit that fails does not stop
  the units after it: the loop goes on with every later folder of the archive, the progress
  counter advances for the failed unit too, and the snapshot pushed for the failed unit has
  an empty result slot. In all, one snapshot is pushed per unit.
\<close>

theorem importFolders_failed_unit:
  assumes "\<not> closed ob"
    and "isl (fst (importMap ev z zipPath f (path_basename f) mapsFolder
                     (fst (importFolders ev z zipPath mapsFolder before (w, progress, ob)))))"
  shows "importFolders ev z zipPath mapsFolder (before @ f # after) (w, progress, ob)
           = importFolders ev z zipPath mapsFolder after
               (snd (importMap ev z zipPath f (path_basename f) mapsFolder
                       (fst (importFolders ev z zipPath mapsFolder before (w, progress, ob)))),
                \<lparr>total = total progress, current = current progress + length before + 1, data = None\<rparr>,
                obs_next (snd (snd (importFolders ev z zipPath mapsFolder before (w, progress, ob))))
                  \<lparr>total = total progress, current = current progress + length before + 1,
                   data = None\<rparr>)
         \<and> \<not> closed (snd (snd (importFolders ev z zipPath mapsFolder before (w, progress, ob))))
         \<and> length (snapshots (events (snd (snd
               (importFolders ev z zipPath mapsFolder (before @ f # after) (w, progress, ob))))))
             = length (snapshots (events ob)) + length (before @ f # after)
         \<and> current (fst (snd
               (importFolders ev z zipPath mapsFolder (before @ f # after) (w, progress, ob))))
             = current progress + length (before @ f # after)"
proof -
  obtain w1 p1 o1 where b: "importFolders ev z zipPath mapsFolder before (w, progress, ob) = (w1, p1, o1)"
    by (metis prod_cases3)
  from importFolders_counts [OF b assms(1)]
  have c: "\<not> closed o1" "total p1 = total progress" "current p1 = current progress + length before"
    by simp_all
  from assms(2) b have "isl (fst (importMap ev z zipPath f (path_basename f) mapsFolder w1))"
    by simp
  from importFolder_failure [OF this, of p1 o1] c(2,3)
  have step: "importFolder ev z zipPath mapsFolder f (w1, p1, o1)
     = (snd (importMap ev z zipPath f (path_basename f) mapsFolder w1),
        \<lparr>total = total progress, current = current progress + length before + 1, data = None\<rparr>,
        obs_next o1 \<lparr>total = total progress, current = current progress + length before + 1,
                     data = None\<rparr>)"
    by simp
  have "importFolders ev z zipPath mapsFolder (before @ f # after) (w, progress, ob)
          = importFolders ev z zipPath mapsFolder after
              (importFolder ev z zipPath mapsFolder f (w1, p1, o1))"
    by (simp add: importFolders_append b)
  with step b have 1: "importFolders ev z zipPath mapsFolder (before @ f # after) (w, progress, ob)
           = importFolders ev z zipPath mapsFolder after
               (snd (importMap ev z zipPath f (path_basename f) mapsFolder
                       (fst (importFolders ev z zipPath mapsFolder before (w, progress, ob)))),
                \<lparr>total = total progress, current = current progress + length before + 1, data = None\<rparr>,
                obs_next (snd (snd (importFolders ev z zipPath mapsFolder before (w, progress, ob))))
                  \<lparr>total = total progress, current = current progress + length before + 1,
                   data = None\<rparr>)"
    by simp
  obtain w' p' o' where all: "importFolders ev z zipPath mapsFolder (before @ f # after) (w, progress, ob)
      = (w', p', o')"
    by (metis prod_cases3)
  from importFolders_counts [OF all assms(1)] all
  have 2: "length (snapshots (events (snd (snd
               (importFolders ev z zipPath mapsFolder (before @ f # after) (w, progress, ob))))))
             = length (snapshots (events ob)) + length (before @ f # after)"
    and 3: "current (fst (snd
               (importFolders ev z zipPath mapsFolder (before @ f # after) (w, progress, ob))))
             = current progress + length (before @ f # after)"
    by simp_all
  from b c(1) have 4: "\<not> closed (snd (snd (importFolders ev z zipPath mapsFolder before (w, progress, ob))))"
    by simp
  from 1 2 3 4 show ?thesis by blast
qed

theorem importFolders_failed_unit_witness:
  "\<not> closed (obs_next new_observer \<lparr>total = 3, current = 0, data = None :: BsmLocalMap option\<rparr>)
   \<and> isl (fst (importMap demo_env demo_pack_zip ''/dl/Pack.zip'' ''B'' (path_basename ''B'') demo_levels
                  (fst (importFolders demo_env demo_pack_zip ''/dl/Pack.zip'' demo_levels [''A'']
                          (demo_world, \<lparr>total = 3, current = 0, data = None\<rparr>,
                           obs_next new_observer \<lparr>total = 3, current = 0, data = None\<rparr>)))))
   \<and> snapshots (events (snd (snd (importFolders demo_env demo_pack_zip ''/dl/Pack.zip'' demo_levels
                                     ([''A''] @ ''B'' # [''C''])
                                     (demo_world, \<lparr>total = 3, current = 0, data = None\<rparr>,
                                      obs_next new_observer \<lparr>total = 3, current = 0, data = None\<rparr>)))))
       = [\<lparr>total = 3, current = 0, data = None\<rparr>,
          \<lparr>total = 3, current = 1, data = Some (getUrlsAndReturn demo_env demo_manifest
               ''sha1:{info}easyhardlights'' (demo_levels @ ''/A''))\<rparr>,
          \<lparr>total = 3, current = 2, data = None\<rparr>,
          \<lparr>total = 3, current = 3, data = Some (getUrlsAndReturn demo_env demo_manifest
               ''sha1:{info}easyhardlights'' (demo_levels @ ''/C''))\<rparr>]
   \<and> current (fst (snd (importFolders demo_env demo_pack_zip ''/dl/Pack.zip'' demo_levels
                          ([''A''] @ ''B'' # [''C''])
                          (demo_world, \<lparr>total = 3, current = 0, data = None\<rparr>,
                           obs_next new_observer \<lparr>total = 3, current = 0, data = None\<rparr>))))
       = current \<lparr>total = 3, current = 0, data = None :: BsmLocalMap option\<rparr>
         + length ([''A''] @ ''B'' # [''C''])"
proof -
  have a: "\<not> closed (obs_next new_observer \<lparr>total = 3, current = 0, data = None :: BsmLocalMap option\<rparr>)"
    by code_simp
  have b: "isl (fst (importMap demo_env demo_pack_zip ''/dl/Pack.zip'' ''B'' (path_basename ''B'') demo_levels
                  (fst (importFolders demo_env demo_pack_zip ''/dl/Pack.zip'' demo_levels [''A'']
                          (demo_world, \<lparr>total = 3, current = 0, data = None\<rparr>,
                           obs_next new_observer \<lparr>total = 3, current = 0, data = None\<rparr>)))))"
    by code_simp
  have c: "snapshots (events (snd (snd (importFolders demo_env demo_pack_zip ''/dl/Pack.zip'' demo_levels
                                     ([''A''] @ ''B'' # [''C''])
                                     (demo_world, \<lparr>total = 3, current = 0, data = None\<rparr>,
                                      obs_next new_observer \<lparr>total = 3, current = 0, data = None\<rparr>)))))
       = [\<lparr>total = 3, current = 0, data = None\<rparr>,
          \<lparr>total = 3, current = 1, data = Some (getUrlsAndReturn demo_env demo_manifest
               ''sha1:{info}easyhardlights'' (demo_levels @ ''/A''))\<rparr>,
          \<lparr>total = 3, current = 2, data = None\<rparr>,
          \<lparr>total = 3, current = 3, data = Some (getUrlsAndReturn demo_env demo_manifest
               ''sha1:{info}easyhardlights'' (demo_levels @ ''/C''))\<rparr>]"
    by code_simp
  note t = importFolders_failed_unit [OF a b, of "[''C'']"]
  note d = t [THEN conjunct2, THEN conjunct2, THEN conjunct2]
  show ?thesis
    by (rule conjI, rule a, rule conjI, rule b, rule conjI, rule c, rule d)
qed

section \<open>The cache is filled by the scan\<close>

lemma Next_in_events_iff: "Next p \<in> set es \<longleftrightarrow> p \<in> set (snapshots es)"
  by (induction es rule: snapshots.induct) auto

lemma loadMapInfoFromPath_cached:
  assumes "getMapInfoFromDirname w (path_basename mapPath) = Some (mi, h)"
  shows "loadMapInfoFromPath ev w mapPath = Inr (Some (getUrlsAndReturn ev mi h mapPath))"
  using assms by (simp add: loadMapInfoFromPath_def)

lemma loadMapInfoFromPath_shape:
  assumes "loadMapInfoFromPath ev w mapPath = Inr (Some m)"
  shows "m = getUrlsAndReturn ev (mapInfo m) (hash m) mapPath"
  using assms
  by (auto simp: loadMapInfoFromPath_def getUrlsAndReturn_def Let_def
           split: option.splits if_splits sum.splits)

lemma getUrlsAndReturn_path: "path (getUrlsAndReturn ev mi h mapPath) = mapPath"
  by (simp add: getUrlsAndReturn_def)

lemma loadChunkItem_in_cache:
  assumes "loadChunkItem ev mapPath (w, progression, ob) = ((w', progression', ob'), r)"
    and "\<forall>m \<in> M. in_cache ev w m"
  shows "(\<forall>m \<in> M. in_cache ev w' m) \<and> (\<forall>m. r = Some m \<longrightarrow> in_cache ev w' m)"
proof (cases "loadMapInfoFromPath ev w mapPath")
  case (Inl e)
  with assms show ?thesis by (simp add: loadChunkItem_def)
next
  case (Inr res)
  show ?thesis
  proof (cases res)
    case None
    with Inr assms show ?thesis by (simp add: loadChunkItem_def)
  next
    case (Some m')
    from Inr Some have ld: "loadMapInfoFromPath ev w mapPath = Inr (Some m')" by simp
    from loadMapInfoFromPath_shape [OF ld]
    have sh: "m' = getUrlsAndReturn ev (mapInfo m') (hash m') mapPath" .
    then have pm: "path m' = mapPath" by (metis getUrlsAndReturn_path)
    from ld assms(1) have w': "w' = setMapInfoFromDirname w (path_basename mapPath) (mapInfo m', hash m')"
      and r: "r = Some m'"
      by (simp_all add: loadChunkItem_def Let_def)
    have new: "in_cache ev w' m'"
      using sh pm by (simp add: in_cache_def w' setMapInfoFromDirname_def getMapInfoFromDirname_def)
    have old: "in_cache ev w' m" if "m \<in> M" for m
    proof (cases "path_basename (path m) = path_basename mapPath")
      case False
      with assms(2) that show ?thesis
        by (simp add: in_cache_def w' setMapInfoFromDirname_def getMapInfoFromDirname_def)
    next
      case True
      from assms(2) that have ic: "in_cache ev w m" by blast
      then have "getMapInfoFromDirname w (path_basename mapPath) = Some (mapInfo m, hash m)"
        using True by (simp add: in_cache_def)
      from loadMapInfoFromPath_cached [OF this, of ev] ld
      have "m' = getUrlsAndReturn ev (mapInfo m) (hash m) mapPath" by simp
      then have "mapInfo m' = mapInfo m" "hash m' = hash m"
        by (simp_all add: getUrlsAndReturn_def)
      with ic True show ?thesis
        by (simp add: in_cache_def w' setMapInfoFromDirname_def getMapInfoFromDirname_def)
    qed
    from new old r show ?thesis by simp
  qed
qed

lemma loadChunk_in_cache:
  assumes "loadChunk ev mapPaths (w, progression, ob) = ((w', progression', ob'), rs)"
    and "\<forall>m \<in> M. in_cache ev w m"
  shows "\<forall>m \<in> M \<union> set rs. in_cache ev w' m"
  using assms
proof (induction mapPaths arbitrary: w progression ob rs M)
  case Nil
  then show ?case by simp
next
  case (Cons mapPath rest)
  obtain w1 p1 o1 r where st: "loadChunkItem ev mapPath (w, progression, ob) = ((w1, p1, o1), r)"
    by (metis prod_cases3 surj_pair)
  from Cons.prems(1) st obtain rs2
    where st2: "loadChunk ev rest (w1, p1, o1) = ((w', progression', ob'), rs2)"
      and rs: "rs = (case r of None \<Rightarrow> rs2 | Some m \<Rightarrow> m # rs2)"
    by (auto split: prod.splits)
  from loadChunkItem_in_cache [OF st Cons.prems(2)]
  have "\<forall>m \<in> M \<union> set_option r. in_cache ev w1 m" by auto
  from Cons.IH [OF st2 this] have "\<forall>m \<in> (M \<union> set_option r) \<union> set rs2. in_cache ev w' m" .
  moreover have "set rs \<subseteq> set_option r \<union> set rs2"
    unfolding rs by (cases r) auto
  ultimately show ?case by blast
qed

lemma loadChunks_in_cache:
  assumes "loadChunks ev chunks (w, progression, ob) acc = ((w', progression', ob'), rs)"
    and "\<forall>m \<in> set acc. in_cache ev w m"
  shows "\<forall>m \<in> set rs. in_cache ev w' m"
  using assms
proof (induction chunks arbitrary: w progression ob acc)
  case Nil
  then show ?case by simp
next
  case (Cons chunk rest)
  obtain w1 p1 o1 rs1 where st: "loadChunk ev chunk (w, progression, ob) = ((w1, p1, o1), rs1)"
    by (metis prod_cases3 surj_pair)
  from loadChunk_in_cache [OF st Cons.prems(2)]
  have a: "\<forall>m \<in> set (acc @ rs1). in_cache ev w1 m" by simp
  from Cons.prems(1) st have "loadChunks ev rest (w1, p1, o1) (acc @ rs1) = ((w', progression', ob'), rs)"
    by simp
  from Cons.IH [OF this a] show ?case .
qed

lemma snapshots_obs_next_subset:
  "set (snapshots (events (obs_next ob v))) \<subseteq> insert v (set (snapshots (events ob)))"
  by (auto simp: obs_next_def snapshots_append)

lemma loadChunkItem_maps_unset:
  assumes "loadChunkItem ev mapPath (w, progression, ob) = ((w', progression', ob'), r)"
    and "maps_unset progression ob"
  shows "maps_unset progression' ob'"
proof (cases "loadMapInfoFromPath ev w mapPath")
  case (Inl e)
  with assms show ?thesis by (simp add: loadChunkItem_def)
next
  case (Inr res)
  show ?thesis
  proof (cases res)
    case None
    with Inr assms show ?thesis by (simp add: loadChunkItem_def)
  next
    case (Some m')
    with Inr assms(1) have p: "progression' = progression\<lparr>loaded := loaded progression + 1\<rparr>"
      and o: "ob' = obs_next ob progression'"
      by (auto simp: loadChunkItem_def Let_def)
    from p assms(2) have mp: "maps progression' = []" by (simp add: maps_unset_def)
    with assms(2) snapshots_obs_next_subset [of ob progression'] show ?thesis
      unfolding maps_unset_def o by blast
  qed
qed

lemma loadChunk_maps_unset:
  assumes "loadChunk ev mapPaths (w, progression, ob) = ((w', progression', ob'), rs)"
    and "maps_unset progression ob"
  shows "maps_unset progression' ob'"
  using assms
proof (induction mapPaths arbitrary: w progression ob rs)
  case Nil
  then show ?case by simp
next
  case (Cons mapPath rest)
  obtain w1 p1 o1 r where st: "loadChunkItem ev mapPath (w, progression, ob) = ((w1, p1, o1), r)"
    by (metis prod_cases3 surj_pair)
  from Cons.prems(1) st obtain rs2
    where st2: "loadChunk ev rest (w1, p1, o1) = ((w', progression', ob'), rs2)"
    by (auto split: prod.splits)
  from Cons.IH [OF st2 loadChunkItem_maps_unset [OF st Cons.prems(2)]] show ?case .
qed

lemma loadChunks_maps_unset:
  assumes "loadChunks ev chunks (w, progression, ob) acc = ((w', progression', ob'), rs)"
    and "maps_unset progression ob"
  shows "maps_unset progression' ob'"
  using assms
proof (induction chunks arbitrary: w progression ob acc)
  case Nil
  then show ?case by simp
next
  case (Cons chunk rest)
  obtain w1 p1 o1 rs1 where st: "loadChunk ev chunk (w, progression, ob) = ((w1, p1, o1), rs1)"
    by (metis prod_cases3 surj_pair)
  from Cons.prems(1) st have "loadChunks ev rest (w1, p1, o1) (acc @ rs1) = ((w', progression', ob'), rs)"
    by simp
  from Cons.IH [OF this loadChunk_maps_unset [OF st Cons.prems(2)]] show ?case .
qed

lemma getMaps_loaded_in_cache:
  assumes "Next p \<in> set (fst (getMaps ev version w))" and "m \<in> set (maps p)"
  shows "in_cache ev (snd (getMaps ev version w)) m"
proof (cases "getMapsFolderPath ev version (disk w)")
  case (Inl e)
  with assms(1) show ?thesis
    by (simp add: getMaps_def new_observer_def obs_error_def)
next
  case (Inr x)
  obtain levelsFolder d1 where x: "x = (levelsFolder, d1)" by (cases x)
  show ?thesis
  proof (cases "pathExist d1 levelsFolder")
    case False
    with Inr x assms(1) show ?thesis
      by (simp add: getMaps_def new_observer_def obs_complete_def)
  next
    case True
    let ?p1 = "\<lparr>maps_total = length (getFoldersInFolder d1 levelsFolder), loaded = 0, maps = []\<rparr>"
    obtain w2 p2 o2 loadedMaps where lc:
      "loadChunks ev (splitIntoChunk (getFoldersInFolder d1 levelsFolder) 50)
         (w\<lparr>disk := d1\<rparr>, ?p1, new_observer) [] = ((w2, p2, o2), loadedMaps)"
      by (metis prod_cases3 surj_pair)
    have "maps_unset ?p1 new_observer"
      by (simp add: maps_unset_def new_observer_def)
    from loadChunks_maps_unset [OF lc this]
    have unset: "\<forall>s \<in> set (snapshots (events o2)). maps s = []"
      by (simp add: maps_unset_def)
    from loadChunks_in_cache [OF lc] have cached: "\<forall>m \<in> set loadedMaps. in_cache ev w2 m"
      by simp
    let ?p3 = "p2\<lparr>maps := loadedMaps\<rparr>"
    have r: "getMaps ev version w = (events (obs_complete (obs_next o2 ?p3)), w2)"
      using Inr x True lc by (simp add: getMaps_def Let_def)
    from assms(1) have "p \<in> set (snapshots (fst (getMaps ev version w)))"
      by (simp only: Next_in_events_iff)
    with r have "p \<in> set (snapshots (events (obs_next o2 ?p3)))"
      by (simp add: snapshots_obs_complete)
    with snapshots_obs_next_subset [of o2 ?p3]
    have "p = ?p3 \<or> p \<in> set (snapshots (events o2))" by blast
    with unset assms(2) have "m \<in> set loadedMaps" by auto
    with cached r show ?thesis by simp
  qed
qed

text \<open>
  C4, as amended. \<open>loadMapInfoFromPath\<close> does not write the cache. The scan \<open>getMaps\<close>
  does: for every folder it loads, it stores the manifest and the hash under the name of
  the folder before it completes. From then on \<open>loadMapInfoFromPath\<close> on that folder hits
  the cache and returns the identical local map, manifest and hash, without reading the
  files of the folder: the result is the same whatever the disk holds.
\<close>

theorem getMaps_cache_round_trip:
  assumes "Next p \<in> set (fst (getMaps ev version w))" and "m \<in> set (maps p)"
  shows "getMapInfoFromDirname (snd (getMaps ev version w)) (path_basename (path m))
           = Some (mapInfo m, hash m)
         \<and> loadMapInfoFromPath ev ((snd (getMaps ev version w))\<lparr>disk := d\<rparr>) (path m) = Inr (Some m)"
proof -
  from getMaps_loaded_in_cache [OF assms]
  have c: "getMapInfoFromDirname (snd (getMaps ev version w)) (path_basename (path m))
             = Some (mapInfo m, hash m)"
    and s: "m = getUrlsAndReturn ev (mapInfo m) (hash m) (path m)"
    by (simp_all add: in_cache_def)
  from c have "getMapInfoFromDirname ((snd (getMaps ev version w))\<lparr>disk := d\<rparr>)
                 (path_basename (path m)) = Some (mapInfo m, hash m)"
    by (simp add: getMapInfoFromDirname_def)
  from loadMapInfoFromPath_cached [OF this, of ev] s
  have "loadMapInfoFromPath ev ((snd (getMaps ev version w))\<lparr>disk := d\<rparr>) (path m) = Inr (Some m)"
    by simp
  with c show ?thesis by simp
qed

theorem getMaps_cache_round_trip_witness:
  "Next \<lparr>maps_total = 3, loaded = 2,
          maps = [getUrlsAndReturn demo_env demo_manifest ''sha1:{info}easyhardlights'' (demo_levels @ ''/A''),
                  getUrlsAndReturn demo_env demo_manifest ''sha1:{info}EASYhardlights'' (demo_levels @ ''/B'')]\<rparr>
     \<in> set (fst (getMaps demo_env (Some ''1.0'') demo_installed))
   \<and> getUrlsAndReturn demo_env demo_manifest ''sha1:{info}easyhardlights'' (demo_levels @ ''/A'')
     \<in> set (maps \<lparr>maps_total = 3, loaded = 2,
          maps = [getUrlsAndReturn demo_env demo_manifest ''sha1:{info}easyhardlights'' (demo_levels @ ''/A''),
                  getUrlsAndReturn demo_env demo_manifest ''sha1:{info}EASYhardlights'' (demo_levels @ ''/B'')]\<rparr>)
   \<and> loadMapInfoFromPath demo_env ((snd (getMaps demo_env (Some ''1.0'') demo_installed))\<lparr>disk := []\<rparr>)
        (path (getUrlsAndReturn demo_env demo_manifest ''sha1:{info}easyhardlights'' (demo_levels @ ''/A'')))
       = Inr (Some (getUrlsAndReturn demo_env demo_manifest ''sha1:{info}easyhardlights'' (demo_levels @ ''/A'')))"
proof -
  have a: "Next \<lparr>maps_total = 3, loaded = 2,
          maps = [getUrlsAndReturn demo_env demo_manifest ''sha1:{info}easyhardlights'' (demo_levels @ ''/A''),
                  getUrlsAndReturn demo_env demo_manifest ''sha1:{info}EASYhardlights'' (demo_levels @ ''/B'')]\<rparr>
     \<in> set (fst (getMaps demo_env (Some ''1.0'') demo_installed))"
    by code_simp
  have b: "getUrlsAndReturn demo_env demo_manifest ''sha1:{info}easyhardlights'' (demo_levels @ ''/A'')
     \<in> set (maps \<lparr>maps_total = 3, loaded = 2,
          maps = [getUrlsAndReturn demo_env demo_manifest ''sha1:{info}easyhardlights'' (demo_levels @ ''/A''),
                  getUrlsAndReturn demo_env demo_manifest ''sha1:{info}EASYhardlights'' (demo_levels @ ''/B'')]\<rparr>)"
    by simp
  note t = getMaps_cache_round_trip [OF a b, of "[]"]
  show ?thesis
    by (rule conjI, rule a, rule conjI, rule b, rule t [THEN conjunct2])
qed

text \<open>
  C4, as stated: after a successful load of a folder on a cache miss by
  \<open>loadMapInfoFromPath\<close>, the cache is populated, so that a second load of the same folder
  returns the same manifest and hash without reading the folder again. The function has no
  write to the cache (only the callback of \<open>getMaps\<close> calls \<open>setMapInfoFromDirname\<close>), so
  the state after the first load is the state before it. On the installed map \<open>A\<close>, not
  cached: the load succeeds; when a chart file of \<open>A\<close> changes on the disk, the next load
  reads the folder again and returns another hash.
\<close>

theorem loadMapInfoFromPath_second_load_counterexample:
  "getMapInfoFromDirname demo_installed (path_basename (demo_levels @ ''/A'')) = None
   \<and> map_sum id (map_option hash) (loadMapInfoFromPath demo_env demo_installed (demo_levels @ ''/A''))
       = Inr (Some ''sha1:{info}easyhardlights'')
   \<and> map_sum id (map_option hash)
        (loadMapInfoFromPath demo_env
           (demo_installed\<lparr>disk := fs_put (disk demo_installed) (demo_levels @ ''/A/Easy.dat'')
                                      (File ''changed'')\<rparr>)
           (demo_levels @ ''/A''))
       = Inr (Some ''sha1:{info}changedhardlights'')"
  by code_simp

section \<open>Deleting by hash\<close>

lemma deleteMapsFromHashs_loop_effect:
  assumes "deleteMapsFromHashs_loop ev hashs mapPaths (w, progress, ob) = (w', progress', ob')"
    and "\<not> closed ob"
  shows "w' = foldl remove_map w (requestedFolders ev hashs mapPaths w)
         \<and> current progress' = current progress + length (requestedFolders ev hashs mapPaths w)
         \<and> total progress' = total progress
         \<and> length (snapshots (events ob')) = length (snapshots (events ob)) + length mapPaths
         \<and> ((\<forall>s \<in> set (snapshots (events ob)). total s = total progress)
              \<longrightarrow> (\<forall>s \<in> set (snapshots (events ob')). total s = total progress))
         \<and> (mapPaths \<noteq> [] \<longrightarrow> last (snapshots (events ob')) = progress')"
  using assms
proof (induction mapPaths arbitrary: w progress ob)
  case Nil
  then show ?case by simp
next
  case (Cons mapPath rest)
  obtain w1 p1 o1 where st: "deleteMapsFromHashs_step ev hashs mapPath (w, progress, ob) = (w1, p1, o1)"
    by (metis prod_cases3)
  note sh = deleteMapsFromHashs_step_shape [OF st]
  from sh have o1: "o1 = obs_next ob p1" and t1: "total p1 = total progress" by simp_all
  from o1 Cons.prems(2) have open1: "\<not> closed o1" by (simp add: closed_obs_next)
  from o1 Cons.prems(2) have sn1: "snapshots (events o1) = snapshots (events ob) @ [p1]"
    by (simp add: snapshots_obs_next)
  from Cons.prems(1) st have rest: "deleteMapsFromHashs_loop ev hashs rest (w1, p1, o1) = (w', progress', ob')"
    by simp
  note ih = Cons.IH [OF rest open1]
  note ih_w = ih [THEN conjunct1]
  note ih_c = ih [THEN conjunct2, THEN conjunct1]
  note ih_t = ih [THEN conjunct2, THEN conjunct2, THEN conjunct1]
  note ih_l = ih [THEN conjunct2, THEN conjunct2, THEN conjunct2, THEN conjunct1]
  note ih_a = ih [THEN conjunct2, THEN conjunct2, THEN conjunct2, THEN conjunct2, THEN conjunct1]
  note ih_la = ih [THEN conjunct2, THEN conjunct2, THEN conjunct2, THEN conjunct2, THEN conjunct2]
  have wc: "w' = foldl remove_map w (requestedFolders ev hashs (mapPath # rest) w)
            \<and> current progress' = current progress + length (requestedFolders ev hashs (mapPath # rest) w)"
  proof (cases "hash_requested ev hashs w mapPath")
    case True
    with sh have "w1 = remove_map w mapPath" "current p1 = current progress + 1" by simp_all
    with True ih_w ih_c show ?thesis by simp
  next
    case False
    with sh have "w1 = w" "p1 = progress" by simp_all
    with False ih_w ih_c show ?thesis by simp
  qed
  have t: "total progress' = total progress"
    using ih_t t1 by simp
  have l: "length (snapshots (events ob')) = length (snapshots (events ob)) + length (mapPath # rest)"
    using ih_l sn1 by simp
  have a: "(\<forall>s \<in> set (snapshots (events ob)). total s = total progress)
              \<longrightarrow> (\<forall>s \<in> set (snapshots (events ob')). total s = total progress)"
  proof
    assume h: "\<forall>s \<in> set (snapshots (events ob)). total s = total progress"
    have "\<forall>s \<in> set (snapshots (events o1)). total s = total p1"
      unfolding sn1 t1 using h t1 by auto
    with ih_a have "\<forall>s \<in> set (snapshots (events ob')). total s = total p1" by blast
    then show "\<forall>s \<in> set (snapshots (events ob')). total s = total progress"
      unfolding t1 .
  qed
  have la: "last (snapshots (events ob')) = progress'"
  proof (cases "rest = []")
    case True
    with rest sn1 show ?thesis by simp
  next
    case False
    with ih_la show ?thesis by simp
  qed
  show ?case
  proof (intro conjI)
    show "w' = foldl remove_map w (requestedFolders ev hashs (mapPath # rest) w)"
      by (rule wc [THEN conjunct1])
    show "current progress' = current progress + length (requestedFolders ev hashs (mapPath # rest) w)"
      by (rule wc [THEN conjunct2])
    show "total progress' = total progress" by (rule t)
    show "length (snapshots (events ob')) = length (snapshots (events ob)) + length (mapPath # rest)"
      by (rule l)
    show "(\<forall>s \<in> set (snapshots (events ob)). total s = total progress)
              \<longrightarrow> (\<forall>s \<in> set (snapshots (events ob')). total s = total progress)"
      by (rule a)
    show "mapPath # rest \<noteq> [] \<longrightarrow> last (snapshots (events ob')) = progress'"
      using la by (rule impI)
  qed
qed

text \<open>
  C6, as amended. For \<open>deleteMapsFromHashs\<close> with \<open>N\<close> requested hashes: the stream is
  snapshots followed by the completion; one snapshot is pushed per folder found in the
  maps folder of the version, whether or not the folder matched; every snapshot has the
  total \<open>N\<close>; at the end the counter \<open>current\<close> is the number of folders removed; and
  exactly the folders whose loaded hash is among the requested ones are removed from the
  disk and from the cache.
\<close>

theorem deleteMapsFromHashs_removes_requested:
  "fst (deleteMapsFromHashs ev version hashs w)
     = map Next (snapshots (fst (deleteMapsFromHashs ev version hashs w))) @ [Complete]
   \<and> length (snapshots (fst (deleteMapsFromHashs ev version hashs w)))
       = length (getFoldersInFolder (disk w)
                   (path_join (getVersionPath ev version) RELATIVE_MAPS_FOLDER))
   \<and> map total (snapshots (fst (deleteMapsFromHashs ev version hashs w)))
       = replicate (length (getFoldersInFolder (disk w)
                              (path_join (getVersionPath ev version) RELATIVE_MAPS_FOLDER)))
           (length hashs)
   \<and> (getFoldersInFolder (disk w) (path_join (getVersionPath ev version) RELATIVE_MAPS_FOLDER) \<noteq> []
        \<longrightarrow> current (last (snapshots (fst (deleteMapsFromHashs ev version hashs w))))
            = length (requestedFolders ev hashs
                (getFoldersInFolder (disk w)
                   (path_join (getVersionPath ev version) RELATIVE_MAPS_FOLDER)) w))
   \<and> snd (deleteMapsFromHashs ev version hashs w)
       = foldl remove_map w
           (requestedFolders ev hashs
              (getFoldersInFolder (disk w)
                 (path_join (getVersionPath ev version) RELATIVE_MAPS_FOLDER)) w)"
proof -
  let ?p = "\<lparr>total = length hashs, current = 0, data = None\<rparr> :: unit Progression"
  let ?ps = "getFoldersInFolder (disk w) (path_join (getVersionPath ev version) RELATIVE_MAPS_FOLDER)"
  obtain w' p' ob' where l:
    "deleteMapsFromHashs_loop ev hashs ?ps (w, ?p, new_observer) = (w', p', ob')"
    by (metis prod_cases3)
  have r: "deleteMapsFromHashs ev version hashs w = (events (obs_complete ob'), w')"
    using l by (simp add: deleteMapsFromHashs_def getMapsFolderPath_version)
  have op: "\<not> closed (new_observer :: unit Progression observer)"
    by (simp add: new_observer_def)
  note eff = deleteMapsFromHashs_loop_effect [OF l op]
  from deleteMapsFromHashs_loop_ascending [OF l counter_ascending_new counter_ascending_new]
  have "counter_ascending total p' ob'" by simp
  from counter_ascending_events [OF this]
  have ob': "\<not> closed ob'" "events ob' = map Next (snapshots (events ob'))" by simp_all
  have sn: "snapshots (fst (deleteMapsFromHashs ev version hashs w)) = snapshots (events ob')"
    by (simp add: r snapshots_obs_complete)
  have 1: "fst (deleteMapsFromHashs ev version hashs w)
     = map Next (snapshots (fst (deleteMapsFromHashs ev version hashs w))) @ [Complete]"
    unfolding sn using ob' by (simp add: r obs_complete_def)
  have 2: "length (snapshots (fst (deleteMapsFromHashs ev version hashs w))) = length ?ps"
    unfolding sn using eff by (simp add: new_observer_def)
  have "\<forall>s \<in> set (snapshots (events ob')). total s = length hashs"
    using eff [THEN conjunct2, THEN conjunct2, THEN conjunct2, THEN conjunct2, THEN conjunct1]
    by (simp add: new_observer_def)
  then have "map total (snapshots (events ob'))
               = replicate (length (snapshots (events ob'))) (length hashs)"
    by (simp add: map_replicate_const [symmetric] cong: map_cong)
  with 2 have 3: "map total (snapshots (fst (deleteMapsFromHashs ev version hashs w)))
       = replicate (length ?ps) (length hashs)"
    unfolding sn by simp
  have 4: "?ps \<noteq> [] \<longrightarrow> current (last (snapshots (fst (deleteMapsFromHashs ev version hashs w))))
            = length (requestedFolders ev hashs ?ps w)"
    unfolding sn using eff by simp
  have 5: "snd (deleteMapsFromHashs ev version hashs w)
       = foldl remove_map w (requestedFolders ev hashs ?ps w)"
    using eff by (simp add: r)
  from 1 2 3 4 5 show ?thesis by blast
qed


theorem deleteMapsFromHashs_removes_requested_witness:
  "getFoldersInFolder (disk demo_installed)
      (path_join (getVersionPath demo_env ''1.0'') RELATIVE_MAPS_FOLDER) \<noteq> []
   \<and> current (last (snapshots (fst (deleteMapsFromHashs demo_env ''1.0''
                       [''sha1:{info}easyhardlights'', ''sha1:unknown''] demo_installed))))
       = length (requestedFolders demo_env [''sha1:{info}easyhardlights'', ''sha1:unknown'']
                   (getFoldersInFolder (disk demo_installed)
                      (path_join (getVersionPath demo_env ''1.0'') RELATIVE_MAPS_FOLDER))
                   demo_installed)
   \<and> requestedFolders demo_env [''sha1:{info}easyhardlights'', ''sha1:unknown'']
         (getFoldersInFolder (disk demo_installed)
            (path_join (getVersionPath demo_env ''1.0'') RELATIVE_MAPS_FOLDER))
         demo_installed
       = [demo_levels @ ''/A'']"
proof -
  have a: "getFoldersInFolder (disk demo_installed)
      (path_join (getVersionPath demo_env ''1.0'') RELATIVE_MAPS_FOLDER) \<noteq> []"
    by code_simp
  have b: "requestedFolders demo_env [''sha1:{info}easyhardlights'', ''sha1:unknown'']
         (getFoldersInFolder (disk demo_installed)
            (path_join (getVersionPath demo_env ''1.0'') RELATIVE_MAPS_FOLDER))
         demo_installed
       = [demo_levels @ ''/A'']"
    by code_simp
  note t = deleteMapsFromHashs_removes_requested
    [of demo_env "''1.0''" "[''sha1:{info}easyhardlights'', ''sha1:unknown'']" demo_installed]
  note c = t [THEN conjunct2, THEN conjunct2, THEN conjunct2, THEN conjunct1, THEN mp, OF a]
  show ?thesis
    by (rule conjI, rule a, rule conjI, rule c, rule b)
qed

text \<open>
  C6, as stated: by completion the counter \<open>current\<close> equals the total \<open>N\<close>, even when
  only some hashes match an installed folder. With two requested hashes of which one
  matches the installed map \<open>A\<close>, on a version that holds three folders: three snapshots
  are pushed, \<open>A\<close> is removed and \<open>B\<close> stays, and the counter ends at 1 while the total
  is 2.
\<close>

theorem deleteMapsFromHashs_counter_counterexample:
  "snapshots (fst (deleteMapsFromHashs demo_env ''1.0''
                     [''sha1:{info}easyhardlights'', ''sha1:unknown''] demo_installed))
     = [\<lparr>total = 2, current = 1, data = None\<rparr>,
        \<lparr>total = 2, current = 1, data = None\<rparr>,
        \<lparr>total = 2, current = 1, data = None\<rparr>]
   \<and> \<not> pathExist (disk (snd (deleteMapsFromHashs demo_env ''1.0''
                     [''sha1:{info}easyhardlights'', ''sha1:unknown''] demo_installed)))
          (demo_levels @ ''/A'')
   \<and> pathExist (disk (snd (deleteMapsFromHashs demo_env ''1.0''
                     [''sha1:{info}easyhardlights'', ''sha1:unknown''] demo_installed)))
          (demo_levels @ ''/B'')"
  by code_simp

section \<open>Classifying archives and naming destination folders\<close>

subsection \<open>Base names, directory names and joins\<close>

lemma path_basename_last_segment:
  assumes "s \<noteq> []" and "path_sep \<notin> set s" and "pre = [] \<or> last pre = path_sep"
  shows "path_basename (pre @ s) = s"
proof -
  have hd: "hd (rev s) \<noteq> path_sep"
    using assms(1,2) by (metis hd_rev last_in_set)
  have rs: "rev s \<noteq> []" using assms(1) by simp
  have d: "dropWhile (\<lambda>c. c = path_sep) (rev s @ rev pre) = rev s @ rev pre"
    using hd rs by (cases "rev s") auto
  have t0: "takeWhile (\<lambda>c. c \<noteq> path_sep) (rev pre) = []"
    using assms(3) by (cases "rev pre") (auto simp: last_rev hd_rev [symmetric])
  have "takeWhile (\<lambda>c. c \<noteq> path_sep) (rev s @ rev pre)
          = rev s @ takeWhile (\<lambda>c. c \<noteq> path_sep) (rev pre)"
    by (rule takeWhile_append2) (use assms(2) in auto)
  with t0 have t: "takeWhile (\<lambda>c. c \<noteq> path_sep) (rev s @ rev pre) = rev s"
    by simp
  show ?thesis
    by (simp add: path_basename_def d t)
qed

lemma path_basename_ext_zip:
  assumes "nm \<noteq> []" and "path_sep \<notin> set nm" and "pre = [] \<or> last pre = path_sep"
  shows "path_basename_ext (pre @ nm @ ''.zip'') ''.zip'' = nm"
proof -
  have b: "path_basename (pre @ (nm @ ''.zip'')) = nm @ ''.zip''"
    using assms by (intro path_basename_last_segment) (auto simp: path_sep_def)
  have "length ''.zip'' \<noteq> length (pre @ nm @ ''.zip'')"
    using assms(1) by (cases nm) simp_all
  then have ne: "''.zip'' \<noteq> pre @ nm @ ''.zip''"
    by (auto dest: arg_cong [where f = length])
  show ?thesis
    using b ne assms(1) by (simp add: path_basename_ext_def Let_def)
qed

lemma path_dirname_nested:
  assumes "dname \<noteq> []" and "path_sep \<notin> set dname"
    and "fname \<noteq> []" and "path_sep \<notin> set fname"
    and "pre = [] \<or> last pre = path_sep"
  shows "path_dirname (pre @ dname @ path_sep # fname) = pre @ dname"
proof -
  let ?p = "pre @ dname @ path_sep # fname"
  have tl: "tl ?p = tl (pre @ dname) @ path_sep # fname"
    using assms(1) by (cases pre) (auto simp: tl_append split: list.splits)
  have hdf: "hd (rev fname) \<noteq> path_sep"
    using assms(3,4) by (metis hd_rev last_in_set)
  have d1: "dropWhile (\<lambda>c. c = path_sep) (rev fname @ path_sep # rev (tl (pre @ dname)))
              = rev fname @ path_sep # rev (tl (pre @ dname))"
    using hdf assms(3) by (cases "rev fname") auto
  have "dropWhile (\<lambda>c. c \<noteq> path_sep) (rev fname @ path_sep # rev (tl (pre @ dname)))
              = dropWhile (\<lambda>c. c \<noteq> path_sep) (path_sep # rev (tl (pre @ dname)))"
    by (rule dropWhile_append2) (use assms(4) in auto)
  then have d2: "dropWhile (\<lambda>c. c \<noteq> path_sep) (rev fname @ path_sep # rev (tl (pre @ dname)))
              = path_sep # rev (tl (pre @ dname))"
    by simp
  have r: "dropWhile (\<lambda>c. c \<noteq> path_sep) (dropWhile (\<lambda>c. c = path_sep) (rev (tl ?p)))
             = path_sep # rev (tl (pre @ dname))"
    unfolding tl using d1 d2 by simp
  have len: "length (path_sep # rev (tl (pre @ dname))) = length (pre @ dname)"
    using assms(1) by simp
  have notroot: "\<not> (hd ?p = path_sep \<and> length (path_sep # rev (tl (pre @ dname))) = 1)"
  proof (cases pre)
    case Nil
    then have "hd ?p = hd dname" using assms(1) by simp
    with assms(1,2) show ?thesis by (metis hd_in_set)
  next
    case (Cons a list)
    with assms(1) show ?thesis by simp
  qed
  have pne: "?p \<noteq> []" using assms(1) by simp
  have "path_dirname ?p = take (length (path_sep # rev (tl (pre @ dname)))) ?p"
    unfolding path_dirname_def Let_def r using notroot pne by auto
  also have "\<dots> = pre @ dname" unfolding len by simp
  finally show ?thesis .
qed

lemma path_basename_dirname_nested:
  assumes "dname \<noteq> []" and "path_sep \<notin> set dname"
    and "fname \<noteq> []" and "path_sep \<notin> set fname"
    and "pre = [] \<or> last pre = path_sep"
  shows "path_basename (path_dirname (pre @ dname @ path_sep # fname)) = dname"
  unfolding path_dirname_nested [OF assms]
  by (rule path_basename_last_segment [OF assms(1,2,5)])

lemma split_sep_snoc:
  assumes "path_sep \<notin> set nm"
  shows "split_sep nm = [nm]" and "split_sep (a @ path_sep # nm) = split_sep a @ [nm]"
proof -
  show 1: "split_sep nm = [nm]"
    using assms by (induction nm) auto
  have ne: "\<And>xs. split_sep xs \<noteq> []"
  proof -
    fix xs show "split_sep xs \<noteq> []" by (induction xs) (auto split: list.splits)
  qed
  show "split_sep (a @ path_sep # nm) = split_sep a @ [nm]"
  proof (induction a)
    case Nil
    show ?case using 1 by simp
  next
    case (Cons c cs)
    show ?case
    proof (cases "c = path_sep")
      case True
      with Cons show ?thesis by simp
    next
      case False
      obtain s ss where s: "split_sep cs = s # ss" using ne [of cs] by (cases "split_sep cs") auto
      with False Cons show ?thesis by simp
    qed
  qed
qed

lemma normalize_segments_append:
  "normalize_segments allow (xs @ ys) acc
     = normalize_segments allow ys (rev (normalize_segments allow xs acc))"
  by (induction xs arbitrary: acc) auto

lemma normalize_segments_snoc:
  assumes "nm \<noteq> []" "nm \<noteq> ''.''" "nm \<noteq> ''..''"
  shows "normalize_segments allow (xs @ [nm]) acc = normalize_segments allow xs acc @ [nm]"
  using assms by (simp add: normalize_segments_append)

lemma join_sep_snoc:
  "join_sep (R @ [nm]) = (if R = [] then nm else join_sep R @ [path_sep] @ nm)"
  by (induction R rule: join_sep.induct) simp_all

lemma path_normalize_last_segment:
  assumes nm: "nm \<noteq> []" "path_sep \<notin> set nm" "nm \<noteq> ''.''" "nm \<noteq> ''..''"
    and qs: "split_sep q = S @ [nm]" and qne: "q \<noteq> []" and ql: "last q \<noteq> path_sep"
  shows "\<exists>Y. path_normalize q = Y @ nm \<and> (Y = [] \<or> last Y = path_sep)"
proof -
  define allow where "allow = (\<not> (hd q = path_sep))"
  define R where "R = normalize_segments allow S []"
  define X where "X = (if R = [] then [] else join_sep R @ [path_sep])"
  have n: "normalize_segments allow (split_sep q) [] = R @ [nm]"
    unfolding qs R_def by (rule normalize_segments_snoc [OF nm(1,3,4)])
  have j: "join_sep (normalize_segments allow (split_sep q) []) = X @ nm"
    unfolding n X_def by (simp add: join_sep_snoc)
  have X: "X = [] \<or> last X = path_sep" by (simp add: X_def)
  have jne: "X @ nm \<noteq> []" using nm(1) by simp
  show ?thesis
  proof (cases "hd q = path_sep")
    case True
    from j True have j': "join_sep (normalize_segments False (split_sep q) []) = X @ nm"
      by (simp add: allow_def)
    have "path_normalize q = path_sep # (X @ nm)"
      unfolding path_normalize_def Let_def using qne ql jne True j' by auto
    then have "path_normalize q = (path_sep # X) @ nm" by simp
    moreover have "last (path_sep # X) = path_sep" using X by auto
    ultimately show ?thesis by blast
  next
    case False
    from j False have j': "join_sep (normalize_segments True (split_sep q) []) = X @ nm"
      by (simp add: allow_def)
    have "path_normalize q = X @ nm"
      unfolding path_normalize_def Let_def using qne ql jne False j' by auto
    with X show ?thesis by blast
  qed
qed

lemma path_basename_path_join:
  assumes "plain_segment nm"
  shows "path_basename (path_join mapsFolder nm) = nm"
proof -
  from assms have nm: "nm \<noteq> []" "path_sep \<notin> set nm" "nm \<noteq> ''.''" "nm \<noteq> ''..''"
    by (simp_all add: plain_segment_def)
  have lastnm: "last nm \<noteq> path_sep" using nm(1,2) by (metis last_in_set)
  have "\<exists>Y. path_join mapsFolder nm = Y @ nm \<and> (Y = [] \<or> last Y = path_sep)"
  proof (cases "mapsFolder = []")
    case True
    have pj: "path_join mapsFolder nm = path_normalize nm"
      using True nm(1) by (simp add: path_join_def path_join_list_def)
    have "split_sep nm = [] @ [nm]" using split_sep_snoc(1) [OF nm(2)] by simp
    from path_normalize_last_segment [OF nm this nm(1) lastnm] show ?thesis
      unfolding pj .
  next
    case False
    have pj: "path_join mapsFolder nm = path_normalize (mapsFolder @ path_sep # nm)"
      using False nm(1) by (simp add: path_join_def path_join_list_def)
    have s: "split_sep (mapsFolder @ path_sep # nm) = split_sep mapsFolder @ [nm]"
      by (rule split_sep_snoc(2) [OF nm(2)])
    have l: "last (mapsFolder @ path_sep # nm) \<noteq> path_sep" using nm(1) lastnm by simp
    have "mapsFolder @ path_sep # nm \<noteq> []" by simp
    from path_normalize_last_segment [OF nm s this l] show ?thesis
      unfolding pj .
  qed
  then obtain Y where Y: "path_join mapsFolder nm = Y @ nm" and Yl: "Y = [] \<or> last Y = path_sep"
    by blast
  show ?thesis
    unfolding Y by (rule path_basename_last_segment [OF nm(1,2) Yl])
qed


subsection \<open>Where an import unit lands\<close>

lemma importMap_try_success:
  assumes "importMap_try ev z relativeFolder mapPath existing w = (Inr m, w1)"
  shows "\<exists>w2 localMap. loadMapInfoFromPath ev w2 mapPath = Inr (Some localMap)
           \<and> m = localMap\<lparr>songDetails := getSongDetails ev (hash localMap)\<rparr>"
proof (cases "if \<not> existing then mkdir_recursive (disk w) mapPath else Inr (disk w)")
  case (Inl e)
  with assms show ?thesis by (simp add: importMap_try_def)
next
  case (Inr d1)
  let ?files = "if relativeFolder = [] then zip_files z else zip_folder_forEach z relativeFolder"
  obtain eo d2 where ex: "extractFiles mapPath ?files d1 = (eo, d2)"
    by (cases "extractFiles mapPath ?files d1")
  show ?thesis
  proof (cases eo)
    case (Some e)
    with assms Inr ex show ?thesis by (simp add: importMap_try_def Let_def)
  next
    case None
    let ?w2 = "w\<lparr>disk := d2\<rparr>"
    show ?thesis
    proof (cases "loadMapInfoFromPath ev ?w2 mapPath")
      case (Inl e)
      with assms Inr ex None show ?thesis by (simp add: importMap_try_def Let_def)
    next
      case ld: (Inr res)
      show ?thesis
      proof (cases res)
        case None': None
        with assms Inr ex None ld show ?thesis by (simp add: importMap_try_def Let_def)
      next
        case (Some localMap)
        with assms Inr ex None ld
        have "m = localMap\<lparr>songDetails := getSongDetails ev (hash localMap)\<rparr>"
          by (simp add: importMap_try_def Let_def)
        with ld Some show ?thesis by blast
      qed
    qed
  qed
qed

lemma importMap_success:
  assumes "importMap ev z zipPath relativeFolder mapName mapsFolder w = (Inr m, w')"
  shows "importMap_try ev z relativeFolder (path_join mapsFolder mapName)
           (pathExistsSync (disk w) (path_join mapsFolder mapName)) w = (Inr m, w')"
proof -
  let ?mapPath = "path_join mapsFolder mapName"
  let ?existing = "pathExistsSync (disk w) ?mapPath"
  obtain r w1 where t: "importMap_try ev z relativeFolder ?mapPath ?existing w = (r, w1)"
    by (cases "importMap_try ev z relativeFolder ?mapPath ?existing w")
  show ?thesis
  proof (cases r)
    case (Inl err)
    show ?thesis
    proof (cases "\<not> ?existing \<and> ?mapPath \<noteq> []")
      case True
      with assms t Inl show ?thesis
        by (cases "unlinkSync (disk w1) ?mapPath") (simp_all add: importMap_def Let_def)
    next
      case False
      with assms t Inl show ?thesis by (simp add: importMap_def Let_def)
    qed
  next
    case (Inr localMap)
    with assms t show ?thesis by (simp add: importMap_def Let_def)
  qed
qed

lemma importMap_success_path:
  assumes "importMap ev z zipPath relativeFolder mapName mapsFolder w = (Inr m, w')"
  shows "path m = path_join mapsFolder mapName"
proof -
  from importMap_try_success [OF importMap_success [OF assms]]
  obtain w2 localMap where
    ld: "loadMapInfoFromPath ev w2 (path_join mapsFolder mapName) = Inr (Some localMap)"
    and m: "m = localMap\<lparr>songDetails := getSongDetails ev (hash localMap)\<rparr>"
    by blast
  from loadMapInfoFromPath_shape [OF ld] have "path localMap = path_join mapsFolder mapName"
    by (metis getUrlsAndReturn_path)
  with m show ?thesis by simp
qed

lemma countMaps_invariant:
  assumes "\<forall>zi \<in> set zips. P zi"
    and "\<And>zipPath z. loadZip ev d zipPath = Inr z \<Longrightarrow> zip_file_regex z \<noteq> [] \<Longrightarrow>
           P \<lparr>zip_path = zipPath,
              single = (find (\<lambda>file. path_sep \<in> set (name file)) (zip_file_regex z) = None),
              folders = map (\<lambda>file. path_dirname (name file)) (zip_file_regex z)\<rparr>"
  shows "\<forall>zi \<in> set (fst (countMaps ev d zipPaths (zips, n))). P zi"
  using assms(1)
proof (induction zipPaths arbitrary: zips n)
  case Nil
  then show ?case by simp
next
  case (Cons zipPath rest)
  show ?case
  proof (cases "loadZip ev d zipPath")
    case (Inl e)
    then have "countMaps ev d (zipPath # rest) (zips, n) = countMaps ev d rest (zips, n)"
      by simp
    with Cons.IH [OF Cons.prems] show ?thesis by simp
  next
    case (Inr z)
    show ?thesis
    proof (cases "zip_file_regex z = []")
      case True
      with Inr have "countMaps ev d (zipPath # rest) (zips, n) = countMaps ev d rest (zips, n)"
        by simp
      with Cons.IH [OF Cons.prems] show ?thesis by simp
    next
      case False
      let ?zi = "\<lparr>zip_path = zipPath,
                  single = (find (\<lambda>file. path_sep \<in> set (name file)) (zip_file_regex z) = None),
                  folders = map (\<lambda>file. path_dirname (name file)) (zip_file_regex z)\<rparr>"
      from Inr False have step: "countMaps ev d (zipPath # rest) (zips, n)
          = countMaps ev d rest (zips @ [?zi], n + length (zip_file_regex z))"
        by (simp add: Let_def)
      have "P ?zi" by (rule assms(2) [OF Inr False])
      with Cons.prems have "\<forall>zi \<in> set (zips @ [?zi]). P zi" by simp
      from Cons.IH [OF this] show ?thesis unfolding step .
    qed
  qed
qed

lemma countMaps_classifies:
  "\<forall>zi \<in> set (fst (countMaps ev d zipPaths ([], 0))).
       (single zi \<longleftrightarrow> (\<forall>file \<in> set (matchedManifests ev d (zip_path zi)). path_sep \<notin> set (name file)))
       \<and> folders zi = map (\<lambda>file. path_dirname (name file)) (matchedManifests ev d (zip_path zi))"
proof (rule countMaps_invariant)
  show "\<forall>zi \<in> set []. (single zi \<longleftrightarrow> (\<forall>file \<in> set (matchedManifests ev d (zip_path zi)). path_sep \<notin> set (name file)))
       \<and> folders zi = map (\<lambda>file. path_dirname (name file)) (matchedManifests ev d (zip_path zi))"
    by simp
next
  fix zipPath z
  assume l: "loadZip ev d zipPath = Inr z" and "zip_file_regex z \<noteq> []"
  have mm: "matchedManifests ev d zipPath = zip_file_regex z"
    using l by (simp add: matchedManifests_def)
  show "(single \<lparr>zip_path = zipPath,
              single = (find (\<lambda>file. path_sep \<in> set (name file)) (zip_file_regex z) = None),
              folders = map (\<lambda>file. path_dirname (name file)) (zip_file_regex z)\<rparr>
          \<longleftrightarrow> (\<forall>file \<in> set (matchedManifests ev d (zip_path \<lparr>zip_path = zipPath,
              single = (find (\<lambda>file. path_sep \<in> set (name file)) (zip_file_regex z) = None),
              folders = map (\<lambda>file. path_dirname (name file)) (zip_file_regex z)\<rparr>)).
                  path_sep \<notin> set (name file)))
       \<and> folders \<lparr>zip_path = zipPath,
              single = (find (\<lambda>file. path_sep \<in> set (name file)) (zip_file_regex z) = None),
              folders = map (\<lambda>file. path_dirname (name file)) (zip_file_regex z)\<rparr>
          = map (\<lambda>file. path_dirname (name file)) (matchedManifests ev d (zip_path \<lparr>zip_path = zipPath,
              single = (find (\<lambda>file. path_sep \<in> set (name file)) (zip_file_regex z) = None),
              folders = map (\<lambda>file. path_dirname (name file)) (zip_file_regex z)\<rparr>))"
    by (auto simp: mm find_None_iff)
qed

lemma importZip_single_path:
  assumes "single zipInfo"
    and "data (fst (snd (importZip ev mapsFolder zipInfo (w, progress, ob)))) = Some m"
  shows "path m = path_join mapsFolder (path_basename_ext (zip_path zipInfo) ''.zip'')"
proof (cases "loadZip ev (disk w) (zip_path zipInfo)")
  case (Inl e)
  with assms show ?thesis by (simp add: importZip_def Let_def)
next
  case (Inr z)
  obtain r w1 where im: "importMap ev z (zip_path zipInfo) []
        (path_basename_ext (zip_path zipInfo) ''.zip'') mapsFolder w = (r, w1)"
    by (cases "importMap ev z (zip_path zipInfo) []
        (path_basename_ext (zip_path zipInfo) ''.zip'') mapsFolder w")
  show ?thesis
  proof (cases r)
    case (Inl e)
    with im Inr assms show ?thesis by (simp add: importZip_def Let_def)
  next
    case r: (Inr localMap)
    with im Inr assms have "localMap = m" by (simp add: importZip_def Let_def)
    with im r importMap_success_path show ?thesis by blast
  qed
qed

lemma importFolder_path:
  assumes "data (fst (snd (importFolder ev z zipPath mapsFolder relativeFolder (w, progress, ob)))) = Some m"
  shows "path m = path_join mapsFolder (path_basename relativeFolder)"
proof -
  obtain r w1 where im: "importMap ev z zipPath relativeFolder (path_basename relativeFolder) mapsFolder w
      = (r, w1)"
    by (cases "importMap ev z zipPath relativeFolder (path_basename relativeFolder) mapsFolder w")
  show ?thesis
  proof (cases r)
    case (Inl e)
    with im assms show ?thesis by (simp add: importFolder_def Let_def)
  next
    case r: (Inr localMap)
    with im assms have "localMap = m" by (simp add: importFolder_def Let_def)
    with im r importMap_success_path show ?thesis by blast
  qed
qed

text \<open>
  C8. At planning, an archive is classified as holding a single map exactly when none of
  its matched manifest entries has a path separator in its name, and its folders are the
  directory names of these entries. The destination folder of a single-map archive is the
  maps folder joined with the base name of the archive file without \<open>.zip\<close>; the
  destination of a unit of an archive with several maps is the maps folder joined with the
  base name of the unit's folder, which for a manifest at \<open>.../dname/fname\<close> is
  \<open>dname\<close>, the innermost folder. The path of the local map an import returns is that
  destination, and its last segment is the folder name: importing \<open>MyMap.zip\<close> with
  \<open>Info.dat\<close> at its root gives a local map whose path ends in \<open>MyMap\<close>.
\<close>

theorem import_plan_and_destination:
  "(\<forall>zipInfo \<in> set (fst (countMaps ev d zipPaths ([], 0))).
       (single zipInfo \<longleftrightarrow> (\<forall>file \<in> set (matchedManifests ev d (zip_path zipInfo)).
                                  path_sep \<notin> set (name file)))
       \<and> folders zipInfo = map (\<lambda>file. path_dirname (name file))
                                (matchedManifests ev d (zip_path zipInfo)))
   \<and> (single zi \<longrightarrow> data (fst (snd (importZip ev mapsFolder zi (w, progress, ob)))) = Some m
        \<longrightarrow> path m = path_join mapsFolder (path_basename_ext (zip_path zi) ''.zip''))
   \<and> (data (fst (snd (importFolder ev z zipPath mapsFolder relativeFolder (w, progress, ob)))) = Some m'
        \<longrightarrow> path m' = path_join mapsFolder (path_basename relativeFolder))
   \<and> (nm \<noteq> [] \<and> path_sep \<notin> set nm \<and> (pre = [] \<or> last pre = path_sep)
        \<longrightarrow> path_basename_ext (pre @ nm @ ''.zip'') ''.zip'' = nm)
   \<and> (dname \<noteq> [] \<and> path_sep \<notin> set dname \<and> fname \<noteq> [] \<and> path_sep \<notin> set fname
          \<and> (pre' = [] \<or> last pre' = path_sep)
        \<longrightarrow> path_basename (path_dirname (pre' @ dname @ path_sep # fname)) = dname)
   \<and> (plain_segment nm' \<longrightarrow> path_basename (path_join mapsFolder nm') = nm')"
proof (intro conjI impI)
  show "\<forall>zipInfo \<in> set (fst (countMaps ev d zipPaths ([], 0))).
       (single zipInfo \<longleftrightarrow> (\<forall>file \<in> set (matchedManifests ev d (zip_path zipInfo)).
                                  path_sep \<notin> set (name file)))
       \<and> folders zipInfo = map (\<lambda>file. path_dirname (name file))
                                (matchedManifests ev d (zip_path zipInfo))"
    by (rule countMaps_classifies)
next
  assume "single zi" and "data (fst (snd (importZip ev mapsFolder zi (w, progress, ob)))) = Some m"
  then show "path m = path_join mapsFolder (path_basename_ext (zip_path zi) ''.zip'')"
    by (rule importZip_single_path)
next
  assume "data (fst (snd (importFolder ev z zipPath mapsFolder relativeFolder (w, progress, ob)))) = Some m'"
  then show "path m' = path_join mapsFolder (path_basename relativeFolder)"
    by (rule importFolder_path)
next
  assume "nm \<noteq> [] \<and> path_sep \<notin> set nm \<and> (pre = [] \<or> last pre = path_sep)"
  then show "path_basename_ext (pre @ nm @ ''.zip'') ''.zip'' = nm"
    by (simp add: path_basename_ext_zip)
next
  assume "dname \<noteq> [] \<and> path_sep \<notin> set dname \<and> fname \<noteq> [] \<and> path_sep \<notin> set fname
          \<and> (pre' = [] \<or> last pre' = path_sep)"
  then show "path_basename (path_dirname (pre' @ dname @ path_sep # fname)) = dname"
    by (simp add: path_basename_dirname_nested)
next
  assume "plain_segment nm'"
  then show "path_basename (path_join mapsFolder nm') = nm'"
    by (rule path_basename_path_join)
qed


theorem import_plan_and_destination_witness:
  "fst (countMaps demo_env (disk demo_world) [''/dl/MyMap.zip'', ''/dl/Pack.zip''] ([], 0))
     = [\<lparr>zip_path = ''/dl/MyMap.zip'', single = True, folders = [''.'']\<rparr>,
        \<lparr>zip_path = ''/dl/Pack.zip'', single = False, folders = [''A'', ''B'', ''C'']\<rparr>]
   \<and> single \<lparr>zip_path = ''/dl/MyMap.zip'', single = True, folders = [''.'']\<rparr>
   \<and> data (fst (snd (importZip demo_env demo_levels
                        \<lparr>zip_path = ''/dl/MyMap.zip'', single = True, folders = [''.'']\<rparr>
                        (demo_world, \<lparr>total = 1, current = 0, data = None\<rparr>, new_observer))))
       = Some (getUrlsAndReturn demo_env demo_manifest ''sha1:{info}easyhardlights''
                 (demo_levels @ ''/MyMap''))
   \<and> path (getUrlsAndReturn demo_env demo_manifest ''sha1:{info}easyhardlights''
              (demo_levels @ ''/MyMap''))
       = path_join demo_levels
           (path_basename_ext
              (zip_path \<lparr>zip_path = ''/dl/MyMap.zip'', single = True, folders = [''.'']\<rparr>) ''.zip'')
   \<and> path_basename_ext (''/dl/'' @ ''MyMap'' @ ''.zip'') ''.zip'' = ''MyMap''
   \<and> plain_segment ''MyMap''
   \<and> path_basename (path_join demo_levels ''MyMap'') = ''MyMap''
   \<and> data (fst (snd (importFolder demo_env demo_pack_zip ''/dl/Pack.zip'' demo_levels ''A''
                        (demo_world, \<lparr>total = 1, current = 0, data = None\<rparr>, new_observer))))
       = Some (getUrlsAndReturn demo_env demo_manifest ''sha1:{info}easyhardlights''
                 (demo_levels @ ''/A''))
   \<and> path (getUrlsAndReturn demo_env demo_manifest ''sha1:{info}easyhardlights''
              (demo_levels @ ''/A''))
       = path_join demo_levels (path_basename ''A'')
   \<and> path_basename (path_dirname ([] @ ''A'' @ path_sep # ''Info.dat'')) = ''A''"
proof -
  let ?zi = "\<lparr>zip_path = ''/dl/MyMap.zip'', single = True, folders = [''.'']\<rparr>"
  let ?p = "\<lparr>total = 1, current = 0, data = None\<rparr> :: BsmLocalMap Progression"
  let ?m = "getUrlsAndReturn demo_env demo_manifest ''sha1:{info}easyhardlights''
              (demo_levels @ ''/MyMap'')"
  let ?mA = "getUrlsAndReturn demo_env demo_manifest ''sha1:{info}easyhardlights''
              (demo_levels @ ''/A'')"
  have w1: "fst (countMaps demo_env (disk demo_world) [''/dl/MyMap.zip'', ''/dl/Pack.zip''] ([], 0))
     = [?zi, \<lparr>zip_path = ''/dl/Pack.zip'', single = False, folders = [''A'', ''B'', ''C'']\<rparr>]"
    by code_simp
  have w2: "single ?zi" by simp
  have w3: "data (fst (snd (importZip demo_env demo_levels ?zi (demo_world, ?p, new_observer))))
              = Some ?m"
    by code_simp
  have w7: "data (fst (snd (importFolder demo_env demo_pack_zip ''/dl/Pack.zip'' demo_levels ''A''
                        (demo_world, ?p, new_observer))))
              = Some ?mA"
    by code_simp
  have h4: "''MyMap'' \<noteq> [] \<and> path_sep \<notin> set ''MyMap'' \<and> (''/dl/'' = [] \<or> last ''/dl/'' = path_sep)"
    by (simp add: path_sep_def)
  have h5: "''A'' \<noteq> [] \<and> path_sep \<notin> set ''A'' \<and> ''Info.dat'' \<noteq> [] \<and> path_sep \<notin> set ''Info.dat''
          \<and> (([] :: string) = [] \<or> last [] = path_sep)"
    by (simp add: path_sep_def)
  have w6: "plain_segment ''MyMap''" by (simp add: plain_segment_def path_sep_def)
  note t = import_plan_and_destination
    [where zi = "?zi" and ev = demo_env and mapsFolder = demo_levels and w = demo_world
       and progress = "?p" and ob = new_observer and m = "?m"
       and z = demo_pack_zip and zipPath = "''/dl/Pack.zip''" and relativeFolder = "''A''"
       and m' = "?mA" and nm = "''MyMap''" and pre = "''/dl/''"
       and dname = "''A''" and fname = "''Info.dat''" and pre' = "[]" and nm' = "''MyMap''"]
  note c2 = t [THEN conjunct2, THEN conjunct1, THEN mp, THEN mp, OF w2 w3]
  note c3 = t [THEN conjunct2, THEN conjunct2, THEN conjunct1, THEN mp, OF w7]
  note c4 = t [THEN conjunct2, THEN conjunct2, THEN conjunct2, THEN conjunct1, THEN mp, OF h4]
  note c5 = t [THEN conjunct2, THEN conjunct2, THEN conjunct2, THEN conjunct2, THEN conjunct1,
               THEN mp, OF h5]
  note c6 = t [THEN conjunct2, THEN conjunct2, THEN conjunct2, THEN conjunct2, THEN conjunct2,
               THEN mp, OF w6]
  show ?thesis
    by (intro conjI, rule w1, rule w2, rule w3, rule c2, rule c4, rule w6, rule c6, rule w7,
        rule c3, rule c5)
qed

end
